theory Spec2Isabelle
  imports Main
begin

section \<open>Identity reconciliation: the contact table and \<open>identifyContact\<close>\<close>

text \<open>
  The development embeds \<^verbatim>\<open>identifyService.ts\<close>: the function
  \<^verbatim>\<open>identifyContact\<close> and its helper \<^verbatim>\<open>buildResponse\<close>. Every Prisma call of
  the source is a function on an explicit \<open>world\<close>; every \<^verbatim>\<open>throw\<close> and every
  rejected promise is an \<open>Inl\<close> result.
\<close>

subsection \<open>Data\<close>

text \<open>
  A row of the \<^verbatim>\<open>Contact\<close> table. The field \<^verbatim>\<open>id\<close> is written \<open>idOf\<close>
  (\<open>id\<close> is the identity function of HOL). Nullable columns are options; timestamps
  are milliseconds as naturals. The source compares \<^verbatim>\<open>linkPrecedence\<close> with the two
  literals \<^verbatim>\<open>"primary"\<close> and \<^verbatim>\<open>"secondary"\<close> and writes no other value.
\<close>

datatype precedence = Primary | Secondary

record contact =
  idOf :: nat
  email :: "string option"
  phoneNumber :: "string option"
  linkedId :: "nat option"
  linkPrecedence :: precedence
  createdAt :: nat
  updatedAt :: nat
  deletedAt :: "nat option"

text \<open>The \<^verbatim>\<open>contact\<close> object of \<^verbatim>\<open>IdentifyResponse\<close>.\<close>

record response =
  primaryContactId :: nat
  emails :: "string list"
  phoneNumbers :: "string list"
  secondaryContactIds :: "nat list"

text \<open>
  What a request can end with instead of a response:
  \<^item> \<open>InvalidRequest\<close>: the \<^verbatim>\<open>Error\<close> thrown at line 46;
  \<^item> \<open>StoreFailure\<close>: a Prisma call rejects (store unavailable, timeout);
  \<^item> \<open>ClientValidation\<close>: the second \<^verbatim>\<open>findMany\<close> is given a \<^verbatim>\<open>null\<close> among the
    values of \<^verbatim>\<open>in\<close> (a matched secondary whose \<^verbatim>\<open>linkedId\<close> is null, behind the
    non-null assertion of line 83), which the client refuses;
  \<^item> \<open>TypeError\<close>: a property of \<^verbatim>\<open>undefined\<close> is read (\<^verbatim>\<open>truePrimary.id\<close> when
    \<^verbatim>\<open>primaries\<close> is empty, \<^verbatim>\<open>primary.email\<close> when \<^verbatim>\<open>find\<close> finds nothing).
\<close>

datatype error = InvalidRequest | StoreFailure | ClientValidation | TypeError

datatype call = FindMany | Create | Update | UpdateMany

text \<open>
  The world a request runs in.
  \<^item> \<open>rows\<close>: the table, in the order in which the engine enumerates rows whose sort
    keys are equal. Nothing in the source fixes that order; \<open>create\<close> appends.
  \<^item> \<open>nextId\<close>: the value the autoincrement column gives the next row.
  \<^item> \<open>clock\<close>: the reading of \<^verbatim>\<open>now()\<close> and \<^verbatim>\<open>new Date()\<close>. Time that passes
    between two requests is a change of this field by the caller. Within a request
    the readings go to \<^verbatim>\<open>createdAt\<close> of the one created row and to \<^verbatim>\<open>updatedAt\<close>,
    which the program never reads.
  \<^item> \<open>trace\<close>: the store calls attempted so far, oldest first.
  \<^item> \<open>failAfter\<close>: \<open>Some n\<close> when the store serves \<open>n\<close> more calls and rejects the
    ones after them, \<open>None\<close> when it serves all.
\<close>

record world =
  rows :: "contact list"
  nextId :: nat
  clock :: nat
  trace :: "call list"
  failAfter :: "nat option"

subsection \<open>The store calls\<close>

definition failing :: "world \<Rightarrow> bool" where
  "failing w = (failAfter w = Some 0)"

definition attempt :: "call \<Rightarrow> world \<Rightarrow> world" where
  "attempt k w =
     w\<lparr>trace := trace w @ [k],
       failAfter := (case failAfter w of None \<Rightarrow> None | Some n \<Rightarrow> Some (n - 1))\<rparr>"

text \<open>
  \<^verbatim>\<open>prisma.contact.findMany({where, orderBy: {createdAt: "asc"}})\<close>: the rows that
  satisfy \<open>wh\<close>, sorted by \<open>createdAt\<close>, rows of equal \<open>createdAt\<close> in table order
  (\<open>sort_key\<close> is a stable insertion sort).
\<close>

definition findMany :: "(contact \<Rightarrow> bool) \<Rightarrow> world \<Rightarrow> (error + contact list) \<times> world" where
  "findMany wh w =
     (if failing w then (Inl StoreFailure, attempt FindMany w)
      else (Inr (sort_key createdAt (filter wh (rows w))), attempt FindMany w))"

text \<open>
  \<^verbatim>\<open>prisma.contact.create({data})\<close>: the store assigns \<^verbatim>\<open>id\<close>, \<^verbatim>\<open>createdAt\<close> and
  \<^verbatim>\<open>updatedAt\<close>; \<^verbatim>\<open>deletedAt\<close> is null.
\<close>

definition create ::
  "string option \<Rightarrow> string option \<Rightarrow> nat option \<Rightarrow> precedence \<Rightarrow> world
     \<Rightarrow> (error + contact) \<times> world" where
  "create e p l k w =
     (if failing w then (Inl StoreFailure, attempt Create w)
      else
        let c = \<lparr>idOf = nextId w, email = e, phoneNumber = p, linkedId = l,
                 linkPrecedence = k, createdAt = clock w, updatedAt = clock w,
                 deletedAt = None\<rparr>
        in (Inr c, (attempt Create w)\<lparr>rows := rows w @ [c], nextId := Suc (nextId w)\<rparr>))"

text \<open>
  \<^verbatim>\<open>prisma.contact.update({where: {id}, data})\<close>. The id always comes from a row
  that was just read, so the client's record-not-found error does not arise.
\<close>

definition update :: "nat \<Rightarrow> (contact \<Rightarrow> contact) \<Rightarrow> world \<Rightarrow> (error + unit) \<times> world" where
  "update i f w =
     (if failing w then (Inl StoreFailure, attempt Update w)
      else (Inr (),
            (attempt Update w)\<lparr>rows := map (\<lambda>c. if idOf c = i then f c else c) (rows w)\<rparr>))"

text \<open>\<^verbatim>\<open>prisma.contact.updateMany({where, data})\<close>.\<close>

definition updateMany ::
  "(contact \<Rightarrow> bool) \<Rightarrow> (contact \<Rightarrow> contact) \<Rightarrow> world \<Rightarrow> (error + unit) \<times> world" where
  "updateMany wh f w =
     (if failing w then (Inl StoreFailure, attempt UpdateMany w)
      else (Inr (),
            (attempt UpdateMany w)\<lparr>rows := map (\<lambda>c. if wh c then f c else c) (rows w)\<rparr>))"

subsection \<open>\<^verbatim>\<open>buildResponse\<close> (lines 184-220)\<close>

text \<open>
  JavaScript truthiness of a \<^verbatim>\<open>string | null | undefined\<close>: \<^verbatim>\<open>null\<close>,
  \<^verbatim>\<open>undefined\<close> (both \<open>None\<close>) and the empty string are falsy.
\<close>

definition truthy :: "string option \<Rightarrow> bool" where
  "truthy v = (case v of None \<Rightarrow> False | Some s \<Rightarrow> s \<noteq> [])"

text \<open>\<^verbatim>\<open>if (v && !acc.includes(v)) acc.push(v)\<close>\<close>

definition pushNew :: "string option \<Rightarrow> string list \<Rightarrow> string list" where
  "pushNew v acc =
     (case v of
        None \<Rightarrow> acc
      | Some s \<Rightarrow> if s \<noteq> [] \<and> s \<notin> set acc then acc @ [s] else acc)"

definition buildResponse :: "nat \<Rightarrow> contact list \<Rightarrow> nat list \<Rightarrow> error + response" where
  "buildResponse primaryId allContacts secondaryIds =
     (case find (\<lambda>c. idOf c = primaryId) allContacts of
        None \<Rightarrow> Inl TypeError
      | Some primary \<Rightarrow>
          let rest = filter (\<lambda>c. idOf c \<noteq> primaryId) allContacts
          in Inr \<lparr>primaryContactId = primaryId,
                  emails = fold (\<lambda>c. pushNew (email c)) rest (pushNew (email primary) []),
                  phoneNumbers =
                    fold (\<lambda>c. pushNew (phoneNumber c)) rest (pushNew (phoneNumber primary) []),
                  secondaryContactIds = secondaryIds\<rparr>)"

subsection \<open>\<^verbatim>\<open>identifyContact\<close> (lines 40-182)\<close>

text \<open>The \<^verbatim>\<open>where\<close> clause of the first query (lines 51-57).\<close>

definition matchWhere :: "string option \<Rightarrow> string option \<Rightarrow> contact \<Rightarrow> bool" where
  "matchWhere em ph c =
     (deletedAt c = None \<and>
      ((truthy em \<and> email c = em) \<or> (truthy ph \<and> phoneNumber c = ph)))"

text \<open>Lines 80-83: the root of a matched contact (null when the assertion is wrong).\<close>

definition rootId :: "contact \<Rightarrow> nat option" where
  "rootId c = (if linkPrecedence c = Primary then Some (idOf c) else linkedId c)"

text \<open>
  The \<^verbatim>\<open>where\<close> clause of the second query (lines 90-96); \<open>ids\<close> are the values
  of the set \<^verbatim>\<open>allContactIds\<close>. A null \<^verbatim>\<open>linkedId\<close> is in no list of values.
\<close>

definition clusterWhere :: "nat option set \<Rightarrow> contact \<Rightarrow> bool" where
  "clusterWhere ids c =
     (deletedAt c = None \<and>
      (Some (idOf c) \<in> ids \<or> (linkedId c \<noteq> None \<and> linkedId c \<in> ids)))"

text \<open>The \<^verbatim>\<open>where\<close> clause of the third query (lines 139-145).\<close>

definition refreshWhere :: "nat \<Rightarrow> contact \<Rightarrow> bool" where
  "refreshWhere tp c = (deletedAt c = None \<and> (idOf c = tp \<or> linkedId c = Some tp))"

text \<open>The \<^verbatim>\<open>data\<close> of the two updates (lines 117-121 and 130-133).\<close>

definition demoteData :: "nat \<Rightarrow> nat \<Rightarrow> contact \<Rightarrow> contact" where
  "demoteData tp t c = c\<lparr>linkedId := Some tp, linkPrecedence := Secondary, updatedAt := t\<rparr>"

definition relinkData :: "nat \<Rightarrow> nat \<Rightarrow> contact \<Rightarrow> contact" where
  "relinkData tp t c = c\<lparr>linkedId := Some tp, updatedAt := t\<rparr>"

text \<open>The body of the loop of lines 113-135, for one \<^verbatim>\<open>oldPrimary\<close>.\<close>

definition demoteOne :: "contact \<Rightarrow> contact \<Rightarrow> world \<Rightarrow> (error + unit) \<times> world" where
  "demoteOne truePrimary oldPrimary w =
     (case update (idOf oldPrimary) (demoteData (idOf truePrimary) (clock w)) w of
        (Inl e, w1) \<Rightarrow> (Inl e, w1)
      | (Inr _, w1) \<Rightarrow>
          updateMany (\<lambda>c. linkedId c = Some (idOf oldPrimary) \<and> deletedAt c = None)
            (relinkData (idOf truePrimary) (clock w1)) w1)"

text \<open>The loop itself: a failed call ends the request.\<close>

fun demoteAll :: "contact \<Rightarrow> contact list \<Rightarrow> world \<Rightarrow> (error + unit) \<times> world" where
  "demoteAll truePrimary [] w = (Inr (), w)"
| "demoteAll truePrimary (oldPrimary # others) w =
     (case demoteOne truePrimary oldPrimary w of
        (Inl e, w1) \<Rightarrow> (Inl e, w1)
      | (Inr _, w1) \<Rightarrow> demoteAll truePrimary others w1)"

text \<open>
  Lines 150-181, with \<^verbatim>\<open>truePrimary\<close> defined: the decision on new information,
  the conditional create, the response.
\<close>

definition finishIdentify ::
  "string option \<Rightarrow> string option \<Rightarrow> contact \<Rightarrow> contact list \<Rightarrow> world
     \<Rightarrow> (error + response) \<times> world" where
  "finishIdentify em ph truePrimary allContacts w =
     (let existingEmails = set (filter truthy (map email allContacts));
          existingPhones = set (filter truthy (map phoneNumber allContacts));
          isNewEmail = (truthy em \<and> em \<notin> existingEmails);
          isNewPhone = (truthy ph \<and> ph \<notin> existingPhones);
          hasNewInfo = (isNewEmail \<or> isNewPhone);
          hasBothFields = (truthy em \<and> truthy ph)
      in if hasNewInfo \<and> hasBothFields then
           (case create em ph (Some (idOf truePrimary)) Secondary w of
              (Inl e, w1) \<Rightarrow> (Inl e, w1)
            | (Inr newSecondary, w1) \<Rightarrow>
                let allContacts1 = allContacts @ [newSecondary];
                    secondaries = filter (\<lambda>c. linkPrecedence c = Secondary) allContacts1
                in (buildResponse (idOf truePrimary) allContacts1 (map idOf secondaries), w1))
         else
           (let secondaries = filter (\<lambda>c. linkPrecedence c = Secondary) allContacts
            in (buildResponse (idOf truePrimary) allContacts (map idOf secondaries), w)))"

text \<open>
  Lines 100-148: the true primary and the members of its cluster. When
  \<^verbatim>\<open>primaries\<close> is empty, \<^verbatim>\<open>truePrimary\<close> is \<^verbatim>\<open>undefined\<close> and \<^verbatim>\<open>otherPrimaries\<close>
  is empty: the loop and the refresh are skipped, and the next read of
  \<^verbatim>\<open>truePrimary.id\<close> (in the argument of \<^verbatim>\<open>create\<close> at line 172, before the call,
  or at line 181) throws, with no store call in between.
\<close>

definition resolveCluster ::
  "contact list \<Rightarrow> world \<Rightarrow> (error + contact \<times> contact list) \<times> world" where
  "resolveCluster allContacts w =
     (case sort_key createdAt (filter (\<lambda>c. linkPrecedence c = Primary) allContacts) of
        [] \<Rightarrow> (Inl TypeError, w)
      | truePrimary # otherPrimaries \<Rightarrow>
          if otherPrimaries \<noteq> [] then
            (case demoteAll truePrimary otherPrimaries w of
               (Inl e, w1) \<Rightarrow> (Inl e, w1)
             | (Inr _, w1) \<Rightarrow>
                 (case findMany (refreshWhere (idOf truePrimary)) w1 of
                    (Inl e, w2) \<Rightarrow> (Inl e, w2)
                  | (Inr refreshed, w2) \<Rightarrow> (Inr (truePrimary, refreshed), w2)))
          else (Inr (truePrimary, allContacts), w))"

text \<open>
  The whole function. \<^verbatim>\<open>email ?? null\<close> maps \<^verbatim>\<open>undefined\<close> to \<^verbatim>\<open>null\<close> and leaves
  every string, the empty one too, as it is.
\<close>

definition identifyContact ::
  "world \<Rightarrow> string option \<Rightarrow> string option \<Rightarrow> (error + response) \<times> world" where
  "identifyContact w em ph =
     (if \<not> truthy em \<and> \<not> truthy ph then (Inl InvalidRequest, w)
      else
        (case findMany (matchWhere em ph) w of
           (Inl e, w1) \<Rightarrow> (Inl e, w1)
         | (Inr matchingContacts, w1) \<Rightarrow>
             if matchingContacts = [] then
               (case create em ph None Primary w1 of
                  (Inl e, w2) \<Rightarrow> (Inl e, w2)
                | (Inr newContact, w2) \<Rightarrow>
                    (buildResponse (idOf newContact) [newContact] [], w2))
             else
               (let allContactIds = set (map rootId matchingContacts)
                in if None \<in> allContactIds then (Inl ClientValidation, attempt FindMany w1)
                   else
                     (case findMany (clusterWhere allContactIds) w1 of
                        (Inl e, w2) \<Rightarrow> (Inl e, w2)
                      | (Inr allContacts, w2) \<Rightarrow>
                          (case resolveCluster allContacts w2 of
                             (Inl e, w3) \<Rightarrow> (Inl e, w3)
                           | (Inr (truePrimary, members), w3) \<Rightarrow>
                               finishIdentify em ph truePrimary members w3)))))"

section \<open>Notions used in the statements and proofs\<close>

text \<open>
  The values of \<^verbatim>\<open>matchingContacts\<close>, of \<^verbatim>\<open>allContacts\<close> as first fetched (the
  candidate set) and of \<^verbatim>\<open>primaries\<close>, as functions of the table the request finds.
\<close>

definition matchingOf :: "world \<Rightarrow> string option \<Rightarrow> string option \<Rightarrow> contact list" where
  "matchingOf w em ph = sort_key createdAt (filter (matchWhere em ph) (rows w))"

definition candidatesOf :: "world \<Rightarrow> string option \<Rightarrow> string option \<Rightarrow> contact list" where
  "candidatesOf w em ph =
     sort_key createdAt (filter (clusterWhere (set (map rootId (matchingOf w em ph)))) (rows w))"

definition primariesOf :: "world \<Rightarrow> string option \<Rightarrow> string option \<Rightarrow> contact list" where
  "primariesOf w em ph =
     sort_key createdAt (filter (\<lambda>c. linkPrecedence c = Primary) (candidatesOf w em ph))"

text \<open>
  The condition for a new secondary in the words of the specification: the email is
  absent from the emails of the members or the phone number from their phone
  numbers, and the request supplies both.
\<close>

definition introducesNew :: "string option \<Rightarrow> string option \<Rightarrow> contact list \<Rightarrow> bool" where
  "introducesNew em ph members =
     ((em \<notin> set (map email members) \<or> ph \<notin> set (map phoneNumber members)) \<and>
      truthy em \<and> truthy ph)"

text \<open>The row the store makes of the \<^verbatim>\<open>data\<close> of a \<^verbatim>\<open>create\<close>.\<close>

definition newRow ::
  "world \<Rightarrow> string option \<Rightarrow> string option \<Rightarrow> nat option \<Rightarrow> precedence \<Rightarrow> contact" where
  "newRow w e p l k =
     \<lparr>idOf = nextId w, email = e, phoneNumber = p, linkedId = l, linkPrecedence = k,
      createdAt = clock w, updatedAt = clock w, deletedAt = None\<rparr>"

text \<open>
  What the loop of lines 113-135 has done to a row once every stale primary (their
  ids are \<open>olds\<close>) is through: the stale primaries are demoted, the live rows that
  pointed at one are linked to the true primary.
\<close>

definition mergeRow :: "nat \<Rightarrow> nat set \<Rightarrow> nat \<Rightarrow> contact \<Rightarrow> contact" where
  "mergeRow tp olds t c =
     (if idOf c \<in> olds then demoteData tp t c
      else if deletedAt c = None \<and> linkedId c \<in> Some ` olds then relinkData tp t c
      else c)"

text \<open>The values a list of nullable strings holds: the truthy ones, in order.\<close>

definition valuesOf :: "string option list \<Rightarrow> string list" where
  "valuesOf vs = map the (filter truthy vs)"

text \<open>A list without its repetitions, the first occurrence of each value kept.\<close>

fun firstOcc :: "'a list \<Rightarrow> 'a list" where
  "firstOcc [] = []"
| "firstOcc (x # xs) = x # filter (\<lambda>y. y \<noteq> x) (firstOcc xs)"

text \<open>An empty table, for the examples.\<close>

definition emptyWorld :: world where
  "emptyWorld = \<lparr>rows = [], nextId = 1, clock = 0, trace = [], failAfter = None\<rparr>"

text \<open>A live row written in full, for the examples.\<close>

definition row ::
  "nat \<Rightarrow> string option \<Rightarrow> string option \<Rightarrow> nat option \<Rightarrow> precedence \<Rightarrow> nat \<Rightarrow> contact" where
  "row i e p l k t =
     \<lparr>idOf = i, email = e, phoneNumber = p, linkedId = l, linkPrecedence = k,
      createdAt = t, updatedAt = t, deletedAt = None\<rparr>"

text \<open>
  What the primary key of the table gives: ids are unique, and the autoincrement
  counter is above every id in use.
\<close>

definition keyed :: "world \<Rightarrow> bool" where
  "keyed w = (distinct (map idOf (rows w)) \<and> (\<forall>c \<in> set (rows w). idOf c < nextId w))"

text \<open>
  The invariant of the data model (specification, section 3) on a table: ids are
  unique; a live primary has no \<^verbatim>\<open>linkedId\<close>; a live secondary points at a live
  primary of the table. Rows with a tombstone are bound by the uniqueness of ids
  only, as no query of the source reads them.
\<close>

definition forest :: "contact list \<Rightarrow> bool" where
  "forest rs =
     (distinct (map idOf rs) \<and>
      (\<forall>c \<in> set rs. deletedAt c = None \<longrightarrow>
         (if linkPrecedence c = Primary then linkedId c = None
          else (\<exists>p \<in> set rs. deletedAt p = None \<and> linkPrecedence p = Primary \<and>
                  linkedId c = Some (idOf p)))))"

text \<open>A world whose table is a forest and whose id counter is above every id.\<close>

definition wellFormed :: "world \<Rightarrow> bool" where
  "wellFormed w = (forest (rows w) \<and> (\<forall>c \<in> set (rows w). idOf c < nextId w))"

text \<open>
  The situation of a merge: a forest, a live primary \<open>tp\<close> of it, and the ids
  \<open>olds\<close> of other live primaries.
\<close>

definition mergeable :: "contact list \<Rightarrow> contact \<Rightarrow> nat set \<Rightarrow> bool" where
  "mergeable rs tp olds =
     (forest rs \<and> tp \<in> set rs \<and> deletedAt tp = None \<and> linkPrecedence tp = Primary \<and>
      idOf tp \<notin> olds \<and>
      (\<forall>c \<in> set rs. idOf c \<in> olds \<longrightarrow> deletedAt c = None \<and> linkPrecedence c = Primary))"

text \<open>
  The world a later request finds: the table, the counter and the trace as an
  earlier request left them, the clock at \<open>t\<close>, the store serving every call.
\<close>

definition again :: "world \<Rightarrow> nat \<Rightarrow> world" where
  "again w t = w\<lparr>clock := t, failAfter := None\<rparr>"

text \<open>
  A table that lists rows of equal \<^verbatim>\<open>createdAt\<close> in ascending order of id, as a
  table does that only ever grew by \<open>create\<close>.
\<close>

definition tiesById :: "contact list \<Rightarrow> bool" where
  "tiesById rs = sorted_wrt (\<lambda>a b. createdAt a = createdAt b \<longrightarrow> idOf a < idOf b) rs"

text \<open>The links of a table: of every row the id, the precedence, the link, the tombstone.\<close>

definition links :: "world \<Rightarrow> (nat \<times> precedence \<times> nat option \<times> nat option) list" where
  "links w = map (\<lambda>c. (idOf c, linkPrecedence c, linkedId c, deletedAt c)) (rows w)"

text \<open>
  The worlds of the examples. \<open>oneWorld\<close>: one primary. \<open>mergeWorld\<close>: two
  clusters, the second with a secondary. \<open>crashWorld\<close>: the same table, with a
  store that serves three calls and rejects the fourth. \<open>tieWorld\<close>: two primaries
  of the same \<^verbatim>\<open>createdAt\<close>, the one of the larger id listed first; \<open>tiedWorld\<close>:
  the same two, the one of the smaller id listed first. \<open>orphanWorld\<close>:
  a secondary whose primary is not in the table.
\<close>

definition oneWorld :: world where
  "oneWorld =
     \<lparr>rows = [row 1 (Some ''a'') (Some ''1'') None Primary 5],
      nextId = 2, clock = 9, trace = [], failAfter = None\<rparr>"

definition mergeWorld :: world where
  "mergeWorld =
     \<lparr>rows = [row 1 (Some ''a'') (Some ''1'') None Primary 5,
              row 2 (Some ''b'') (Some ''2'') None Primary 6,
              row 3 (Some ''c'') (Some ''2'') (Some 2) Secondary 7],
      nextId = 4, clock = 9, trace = [], failAfter = None\<rparr>"

definition crashWorld :: world where
  "crashWorld =
     \<lparr>rows = [row 1 (Some ''a'') (Some ''1'') None Primary 5,
              row 2 (Some ''b'') (Some ''2'') None Primary 6,
              row 3 (Some ''c'') (Some ''2'') (Some 2) Secondary 7],
      nextId = 4, clock = 9, trace = [], failAfter = Some 3\<rparr>"

definition tieWorld :: world where
  "tieWorld =
     \<lparr>rows = [row 2 (Some ''a'') (Some ''1'') None Primary 5,
              row 1 (Some ''b'') (Some ''2'') None Primary 5],
      nextId = 3, clock = 9, trace = [], failAfter = None\<rparr>"

definition tiedWorld :: world where
  "tiedWorld =
     \<lparr>rows = [row 1 (Some ''a'') (Some ''1'') None Primary 5,
              row 2 (Some ''b'') (Some ''2'') None Primary 5],
      nextId = 3, clock = 9, trace = [], failAfter = None\<rparr>"

definition orphanWorld :: world where
  "orphanWorld =
     \<lparr>rows = [row 2 (Some ''a'') (Some ''1'') (Some 1) Secondary 5],
      nextId = 3, clock = 9, trace = [], failAfter = None\<rparr>"

text \<open>
  \<open>stallWorld\<close>: three clusters, the third with a secondary, and a store that
  serves three calls and rejects the fourth. \<open>stalledWorld\<close>: the table that the
  request for \<^verbatim>\<open>("a", "3")\<close> leaves of it, as the next request finds it.
\<close>

definition stallWorld :: world where
  "stallWorld =
     \<lparr>rows = [row 1 (Some ''a'') (Some ''1'') None Primary 5,
              row 2 (Some ''b'') (Some ''2'') None Primary 6,
              row 3 (Some ''c'') (Some ''3'') None Primary 7,
              row 4 (Some ''c'') (Some ''4'') (Some 3) Secondary 8],
      nextId = 5, clock = 9, trace = [], failAfter = Some 3\<rparr>"

definition stalledWorld :: world where
  "stalledWorld =
     \<lparr>rows = [row 1 (Some ''a'') (Some ''1'') None Primary 5,
              row 2 (Some ''b'') (Some ''2'') None Primary 6,
              (row 3 (Some ''c'') (Some ''3'') (Some 1) Secondary 7)\<lparr>updatedAt := 9\<rparr>,
              row 4 (Some ''c'') (Some ''4'') (Some 3) Secondary 8],
      nextId = 5, clock = 10, trace = [FindMany, FindMany, Update, UpdateMany],
      failAfter = None\<rparr>"

section \<open>The store calls and the stages of a request\<close>

lemma attempt_fields [simp]:
  "rows (attempt k w) = rows w" "nextId (attempt k w) = nextId w"
  "clock (attempt k w) = clock w" "trace (attempt k w) = trace w @ [k]"
  by (simp_all add: attempt_def)

lemma findMany_Inr:
  "findMany wh w = (Inr xs, w') \<longleftrightarrow>
     \<not> failing w \<and> xs = sort_key createdAt (filter wh (rows w)) \<and> w' = attempt FindMany w"
  by (auto simp: findMany_def)

lemma findMany_Inl:
  "findMany wh w = (Inl e, w') \<longleftrightarrow> failing w \<and> e = StoreFailure \<and> w' = attempt FindMany w"
  by (auto simp: findMany_def)

lemma create_Inr:
  "create e p l k w = (Inr c, w') \<longleftrightarrow>
     \<not> failing w \<and>
     c = \<lparr>idOf = nextId w, email = e, phoneNumber = p, linkedId = l, linkPrecedence = k,
          createdAt = clock w, updatedAt = clock w, deletedAt = None\<rparr> \<and>
     w' = (attempt Create w)\<lparr>rows := rows w @ [c], nextId := Suc (nextId w)\<rparr>"
  by (auto simp: create_def Let_def)

lemma create_Inl:
  "create e p l k w = (Inl x, w') \<longleftrightarrow> failing w \<and> x = StoreFailure \<and> w' = attempt Create w"
  by (auto simp: create_def Let_def)

lemma update_Inr:
  "update i f w = (Inr u, w') \<longleftrightarrow>
     \<not> failing w \<and>
     w' = (attempt Update w)\<lparr>rows := map (\<lambda>c. if idOf c = i then f c else c) (rows w)\<rparr>"
  by (auto simp: update_def)

lemma update_Inl:
  "update i f w = (Inl x, w') \<longleftrightarrow> failing w \<and> x = StoreFailure \<and> w' = attempt Update w"
  by (auto simp: update_def)

lemma updateMany_Inr:
  "updateMany wh f w = (Inr u, w') \<longleftrightarrow>
     \<not> failing w \<and>
     w' = (attempt UpdateMany w)\<lparr>rows := map (\<lambda>c. if wh c then f c else c) (rows w)\<rparr>"
  by (auto simp: updateMany_def)

lemma updateMany_Inl:
  "updateMany wh f w = (Inl x, w') \<longleftrightarrow> failing w \<and> x = StoreFailure \<and> w' = attempt UpdateMany w"
  by (auto simp: updateMany_def)

text \<open>The merge loop in closed form: what it has done to each row when it returns.\<close>

lemma demoteOne_Inr:
  assumes "demoteOne tp old w = (Inr u, w')"
  shows "rows w' = map (mergeRow (idOf tp) {idOf old} (clock w)) (rows w)"
    and "nextId w' = nextId w" and "clock w' = clock w"
    and "trace w' = trace w @ [Update, UpdateMany]"
proof -
  from assms obtain w1 where
    u: "update (idOf old) (demoteData (idOf tp) (clock w)) w = (Inr (), w1)" and
    m: "updateMany (\<lambda>c. linkedId c = Some (idOf old) \<and> deletedAt c = None)
          (relinkData (idOf tp) (clock w1)) w1 = (Inr u, w')"
    by (auto simp: demoteOne_def split: prod.splits sum.splits)
  from u have w1: "rows w1 = map (\<lambda>c. if idOf c = idOf old then demoteData (idOf tp) (clock w) c else c) (rows w)"
    "nextId w1 = nextId w" "clock w1 = clock w" "trace w1 = trace w @ [Update]"
    by (simp_all add: update_Inr)
  from m have w': "rows w' = map (\<lambda>c. if linkedId c = Some (idOf old) \<and> deletedAt c = None
                                        then relinkData (idOf tp) (clock w1) c else c) (rows w1)"
    "nextId w' = nextId w1" "clock w' = clock w1" "trace w' = trace w1 @ [UpdateMany]"
    by (simp_all add: updateMany_Inr)
  show "nextId w' = nextId w" "clock w' = clock w" "trace w' = trace w @ [Update, UpdateMany]"
    using w1 w' by simp_all
  show "rows w' = map (mergeRow (idOf tp) {idOf old} (clock w)) (rows w)"
    unfolding w' w1 map_map
    by (rule map_cong [OF refl])
       (auto simp: mergeRow_def demoteData_def relinkData_def)
qed


lemma mergeRow_compose:
  "mergeRow tp O' t (mergeRow tp {old} t c) = mergeRow tp (insert old O') t c"
  by (auto simp: mergeRow_def demoteData_def relinkData_def)

lemma mergeRow_empty: "mergeRow tp {} t c = c"
  by (simp add: mergeRow_def)

lemma demoteAll_Inr:
  "demoteAll tp olds w = (Inr u, w') \<Longrightarrow>
     rows w' = map (mergeRow (idOf tp) (idOf ` set olds) (clock w)) (rows w) \<and>
     nextId w' = nextId w \<and> clock w' = clock w \<and>
     trace w' = trace w @ concat (map (\<lambda>_. [Update, UpdateMany]) olds)"
proof (induction olds arbitrary: w)
  case Nil
  then show ?case by (simp add: mergeRow_empty)
next
  case (Cons old olds)
  from Cons.prems obtain w1 where
    one: "demoteOne tp old w = (Inr (), w1)" and rest: "demoteAll tp olds w1 = (Inr u, w')"
    by (auto split: prod.splits sum.splits)
  note h = demoteOne_Inr [OF one]
  from Cons.IH [OF rest] h show ?case
    by (simp add: mergeRow_compose comp_def)
qed

text \<open>Whatever the outcome, the merge loop keeps the ids, creates nothing.\<close>

lemma demoteOne_any:
  assumes "demoteOne tp old w = (res, w')"
  shows "map idOf (rows w') = map idOf (rows w)" and "nextId w' = nextId w"
    and "\<exists>ks. trace w' = trace w @ ks \<and> Create \<notin> set ks"
  using assms
  by (auto simp: demoteOne_def update_def updateMany_def demoteData_def relinkData_def comp_def
      split: prod.splits sum.splits if_splits)

lemma demoteAll_any:
  "demoteAll tp olds w = (res, w') \<Longrightarrow>
     map idOf (rows w') = map idOf (rows w) \<and> nextId w' = nextId w \<and>
     (\<exists>ks. trace w' = trace w @ ks \<and> Create \<notin> set ks)"
proof (induction olds arbitrary: w)
  case Nil
  then show ?case by simp
next
  case (Cons old olds)
  obtain r1 w1 where one: "demoteOne tp old w = (r1, w1)" by (cases "demoteOne tp old w")
  note h = demoteOne_any [OF one]
  show ?case
  proof (cases r1)
    case (Inl e)
    with Cons.prems one h show ?thesis by auto
  next
    case (Inr u)
    with Cons.prems one have "demoteAll tp olds w1 = (res, w')" by simp
    from Cons.IH [OF this] h show ?thesis by auto
  qed
qed


lemma resolveCluster_Inr:
  assumes "resolveCluster cands w = (Inr (tp, members), w')"
  shows "\<exists>others.
           sort_key createdAt (filter (\<lambda>c. linkPrecedence c = Primary) cands) = tp # others \<and>
           (if others = [] then w' = w \<and> members = cands
            else rows w' = map (mergeRow (idOf tp) (idOf ` set others) (clock w)) (rows w) \<and>
                 nextId w' = nextId w \<and> clock w' = clock w \<and>
                 members = sort_key createdAt (filter (refreshWhere (idOf tp)) (rows w')))"
proof -
  from assms obtain tp0 others where
    ps: "sort_key createdAt (filter (\<lambda>c. linkPrecedence c = Primary) cands) = tp0 # others"
    by (auto simp: resolveCluster_def split: list.splits)
  show ?thesis
  proof (cases "others = []")
    case True
    with assms ps show ?thesis by (auto simp: resolveCluster_def)
  next
    case False
    with assms ps obtain w1 where
      d: "demoteAll tp0 others w = (Inr (), w1)" and
      f: "findMany (refreshWhere (idOf tp0)) w1 = (Inr members, w')" and tp: "tp = tp0"
      by (auto simp: resolveCluster_def split: prod.splits sum.splits)
    from demoteAll_Inr [OF d] f False ps tp show ?thesis
      by (auto simp: findMany_Inr)
  qed
qed

lemma resolveCluster_any:
  assumes "resolveCluster cands w = (res, w')"
  shows "map idOf (rows w') = map idOf (rows w) \<and> nextId w' = nextId w \<and>
         (\<exists>ks. trace w' = trace w @ ks \<and> Create \<notin> set ks)"
proof (cases "sort_key createdAt (filter (\<lambda>c. linkPrecedence c = Primary) cands)")
  case Nil
  with assms show ?thesis by (simp add: resolveCluster_def)
next
  case (Cons tp others)
  show ?thesis
  proof (cases "others = []")
    case True
    with assms Cons show ?thesis by (simp add: resolveCluster_def)
  next
    case False
    obtain r1 w1 where d: "demoteAll tp others w = (r1, w1)" by (cases "demoteAll tp others w")
    note h = demoteAll_any [OF d]
    show ?thesis
    proof (cases r1)
      case (Inl e)
      with assms Cons False d h show ?thesis by (simp add: resolveCluster_def)
    next
      case (Inr u)
      with assms Cons False d have "w' = attempt FindMany w1"
        by (auto simp: resolveCluster_def findMany_def split: if_splits)
      with h show ?thesis by auto
    qed
  qed
qed

lemma finishIdentify_eq:
  "finishIdentify em ph tp members w =
     (if introducesNew em ph members then
        (if failing w then (Inl StoreFailure, attempt Create w)
         else (buildResponse (idOf tp) (members @ [newRow w em ph (Some (idOf tp)) Secondary])
                 (map idOf (filter (\<lambda>c. linkPrecedence c = Secondary)
                    (members @ [newRow w em ph (Some (idOf tp)) Secondary]))),
               (attempt Create w)\<lparr>rows := rows w @ [newRow w em ph (Some (idOf tp)) Secondary],
                                   nextId := Suc (nextId w)\<rparr>))
      else (buildResponse (idOf tp) members
              (map idOf (filter (\<lambda>c. linkPrecedence c = Secondary) members)), w))"
proof -
  have "(truthy em \<and> em \<notin> set (filter truthy (map email members)) \<or>
         truthy ph \<and> ph \<notin> set (filter truthy (map phoneNumber members))) \<and> truthy em \<and> truthy ph
        \<longleftrightarrow> introducesNew em ph members"
    by (auto simp: introducesNew_def)
  then show ?thesis
    by (simp add: finishIdentify_def Let_def create_def newRow_def)
qed

lemma identifyContact_eq:
  "identifyContact w em ph =
     (if \<not> truthy em \<and> \<not> truthy ph then (Inl InvalidRequest, w)
      else if failing w then (Inl StoreFailure, attempt FindMany w)
      else if matchingOf w em ph = [] then
        (if failing (attempt FindMany w) then (Inl StoreFailure, attempt Create (attempt FindMany w))
         else (buildResponse (nextId w) [newRow w em ph None Primary] [],
               (attempt Create (attempt FindMany w))
                 \<lparr>rows := rows w @ [newRow w em ph None Primary], nextId := Suc (nextId w)\<rparr>))
      else if None \<in> set (map rootId (matchingOf w em ph)) then
        (Inl ClientValidation, attempt FindMany (attempt FindMany w))
      else if failing (attempt FindMany w) then
        (Inl StoreFailure, attempt FindMany (attempt FindMany w))
      else
        (case resolveCluster (candidatesOf w em ph) (attempt FindMany (attempt FindMany w)) of
           (Inl e, w3) \<Rightarrow> (Inl e, w3)
         | (Inr (tp, members), w3) \<Rightarrow> finishIdentify em ph tp members w3))"
  by (simp add: identifyContact_def findMany_def create_def Let_def matchingOf_def
      candidatesOf_def newRow_def)

section \<open>The response builder\<close>

lemma set_firstOcc: "set (firstOcc xs) = set xs"
  by (induction xs) auto


text \<open>The loop of lines 206-210 over one column, from any accumulator.\<close>

lemma fold_pushNew:
  "fold pushNew vs acc = acc @ filter (\<lambda>s. s \<notin> set acc) (firstOcc (valuesOf vs))"
proof (induction vs arbitrary: acc)
  case Nil
  then show ?case by (simp add: valuesOf_def)
next
  case (Cons v vs)
  show ?case
  proof (cases "truthy v")
    case False
    then have "pushNew v acc = acc" "valuesOf (v # vs) = valuesOf vs"
      by (auto simp: pushNew_def truthy_def valuesOf_def split: option.splits)
    then show ?thesis using Cons.IH by simp
  next
    case True
    then obtain s where v: "v = Some s" "s \<noteq> []"
      by (auto simp: truthy_def split: option.splits)
    have vals: "valuesOf (v # vs) = s # valuesOf vs"
      using v by (simp add: valuesOf_def truthy_def)
    show ?thesis
    proof (cases "s \<in> set acc")
      case True
      then have "pushNew v acc = acc" using v by (simp add: pushNew_def)
      moreover have "filter (\<lambda>t. t \<notin> set acc) (filter (\<lambda>y. y \<noteq> s) xs)
                       = filter (\<lambda>t. t \<notin> set acc) xs" for xs
        using True by (induction xs) auto
      ultimately show ?thesis using Cons.IH [of acc] True by (simp add: vals)
    next
      case False
      then have "pushNew v acc = acc @ [s]" using v by (simp add: pushNew_def)
      moreover have "filter (\<lambda>t. t \<notin> set (acc @ [s])) xs
                       = filter (\<lambda>t. t \<notin> set acc) (filter (\<lambda>y. y \<noteq> s) xs)" for xs
        by (induction xs) auto
      ultimately show ?thesis using Cons.IH [of "acc @ [s]"] False by (simp add: vals)
    qed
  qed
qed

lemma fold_pushNew_field:
  "fold (\<lambda>c. pushNew (f c)) rest (pushNew (f primary) [])
     = firstOcc (valuesOf (map f (primary # rest)))"
proof -
  have "fold (\<lambda>c. pushNew (f c)) rest acc = fold pushNew (map f rest) acc" for acc
    by (simp add: fold_map comp_def)
  then have "fold (\<lambda>c. pushNew (f c)) rest (pushNew (f primary) [])
               = fold pushNew (map f (primary # rest)) []"
    by simp
  then show ?thesis by (simp only: fold_pushNew) simp
qed



section \<open>The request as a whole\<close>

subsection \<open>Reading a run off its result\<close>

lemma matchingOf_truthy: "matchingOf w em ph \<noteq> [] \<Longrightarrow> truthy em \<or> truthy ph"
proof (rule ccontr)
  assume n: "matchingOf w em ph \<noteq> []" and "\<not> (truthy em \<or> truthy ph)"
  then have "filter (matchWhere em ph) (rows w) = []"
    by (simp add: filter_empty_conv matchWhere_def)
  with n show False by (simp add: matchingOf_def)
qed

lemma finishIdentify_any:
  assumes "finishIdentify em ph tp members w = (res, w')"
  shows "(w' = w \<or> w' = attempt Create w \<or>
          w' = (attempt Create w)\<lparr>rows := rows w @ [newRow w em ph (Some (idOf tp)) Secondary],
                                   nextId := Suc (nextId w)\<rparr>)"
  using assms by (auto simp: finishIdentify_eq split: if_splits)

lemma clock_any_demoteOne:
  "demoteOne tp old w = (res, w') \<Longrightarrow> clock w' = clock w"
  by (auto simp: demoteOne_def update_def updateMany_def split: prod.splits sum.splits if_splits)

lemma clock_any_demoteAll:
  "demoteAll tp olds w = (res, w') \<Longrightarrow> clock w' = clock w"
proof (induction olds arbitrary: w)
  case Nil
  then show ?case by simp
next
  case (Cons old olds)
  obtain r1 w1 where one: "demoteOne tp old w = (r1, w1)" by (cases "demoteOne tp old w")
  show ?case
  proof (cases r1)
    case (Inl e)
    with Cons.prems one clock_any_demoteOne [OF one] show ?thesis by simp
  next
    case (Inr u)
    with Cons.prems one have "demoteAll tp olds w1 = (res, w')" by simp
    from Cons.IH [OF this] clock_any_demoteOne [OF one] show ?thesis by simp
  qed
qed

lemma clock_any_resolveCluster:
  assumes "resolveCluster cands w = (res, w')"
  shows "clock w' = clock w"
proof (cases "sort_key createdAt (filter (\<lambda>c. linkPrecedence c = Primary) cands)")
  case Nil
  with assms show ?thesis by (simp add: resolveCluster_def)
next
  case (Cons tp others)
  show ?thesis
  proof (cases "others = []")
    case True
    with assms Cons show ?thesis by (simp add: resolveCluster_def)
  next
    case False
    obtain r1 w1 where d: "demoteAll tp others w = (r1, w1)" by (cases "demoteAll tp others w")
    note h = clock_any_demoteAll [OF d]
    show ?thesis
    proof (cases r1)
      case (Inl e)
      with assms Cons False d h show ?thesis by (simp add: resolveCluster_def)
    next
      case (Inr u)
      with assms Cons False d have "w' = attempt FindMany w1"
        by (auto simp: resolveCluster_def findMany_def split: if_splits)
      with h show ?thesis by simp
    qed
  qed
qed

lemma created_none:
  assumes "map idOf (rows w') = map idOf (rows w)"
  shows "map idOf (take (length (rows w)) (rows w')) = map idOf (rows w)"
    and "drop (length (rows w)) (rows w') = []"
proof -
  from assms have "length (rows w') = length (rows w)" by (auto dest: arg_cong [where f = length])
  with assms show "map idOf (take (length (rows w)) (rows w')) = map idOf (rows w)"
    and "drop (length (rows w)) (rows w') = []" by simp_all
qed

lemma created_one:
  assumes "map idOf rs = map idOf (rows w)" "rows w' = rs @ [c]"
  shows "map idOf (take (length (rows w)) (rows w')) = map idOf (rows w)"
    and "drop (length (rows w)) (rows w') = [c]"
proof -
  from assms have "length rs = length (rows w)" by (auto dest: arg_cong [where f = length])
  with assms show "map idOf (take (length (rows w)) (rows w')) = map idOf (rows w)"
    and "drop (length (rows w)) (rows w') = [c]" by simp_all
qed

lemma identifyContact_Inr_match:
  assumes "identifyContact w em ph = (Inr r, w')" and "matchingOf w em ph \<noteq> []"
  shows "\<exists>tp members w3.
           \<not> failing w \<and> \<not> failing (attempt FindMany w) \<and>
           None \<notin> set (map rootId (matchingOf w em ph)) \<and>
           resolveCluster (candidatesOf w em ph) (attempt FindMany (attempt FindMany w))
             = (Inr (tp, members), w3) \<and>
           finishIdentify em ph tp members w3 = (Inr r, w')"
proof -
  let ?w2 = "attempt FindMany (attempt FindMany w)"
  note eq = assms(1) [unfolded identifyContact_eq]
  have v: "\<not> (\<not> truthy em \<and> \<not> truthy ph)" using eq by (auto split: if_splits)
  have s0: "\<not> failing w" using eq v by (auto split: if_splits)
  have n: "None \<notin> set (map rootId (matchingOf w em ph))"
    using eq v s0 assms(2) by (auto split: if_splits)
  have s1: "\<not> failing (attempt FindMany w)"
    using eq v s0 assms(2) n by (auto split: if_splits)
  obtain r3 w3 where rc: "resolveCluster (candidatesOf w em ph) ?w2 = (r3, w3)"
    by (cases "resolveCluster (candidatesOf w em ph) ?w2")
  from eq v s0 assms(2) n s1 rc obtain tp members where
    "r3 = Inr (tp, members)" "finishIdentify em ph tp members w3 = (Inr r, w')"
    by (cases r3) auto
  with rc s0 s1 n show ?thesis by blast
qed

lemma identifyContact_Inr_nomatch:
  assumes "identifyContact w em ph = (Inr r, w')" and "matchingOf w em ph = []"
  shows "(truthy em \<or> truthy ph) \<and>
         buildResponse (nextId w) [newRow w em ph None Primary] [] = Inr r \<and>
         w' = (attempt Create (attempt FindMany w))
                \<lparr>rows := rows w @ [newRow w em ph None Primary], nextId := Suc (nextId w)\<rparr>"
  using assms(1) [unfolded identifyContact_eq] assms(2)
  by (auto split: if_splits)

lemma finishIdentify_Inr:
  assumes "finishIdentify em ph tp members w = (Inr r, w')"
  shows "primaryContactId r = idOf tp \<and>
         (if introducesNew em ph members then
            rows w' = rows w @ [newRow w em ph (Some (idOf tp)) Secondary] \<and>
            nextId w' = Suc (nextId w) \<and>
            buildResponse (idOf tp) (members @ [newRow w em ph (Some (idOf tp)) Secondary])
              (map idOf (filter (\<lambda>c. linkPrecedence c = Secondary)
                 (members @ [newRow w em ph (Some (idOf tp)) Secondary]))) = Inr r
          else w' = w \<and>
            buildResponse (idOf tp) members
              (map idOf (filter (\<lambda>c. linkPrecedence c = Secondary) members)) = Inr r)"
proof -
  have p: "buildResponse i cs ss = Inr r \<Longrightarrow> primaryContactId r = i" for i cs ss
    by (auto simp: buildResponse_def Let_def split: option.splits)
  from assms show ?thesis
    by (auto simp: finishIdentify_eq split: if_splits dest: p)
qed

lemma find_filter_head: "filter P xs = y # ys \<Longrightarrow> find P xs = Some y"
  by (induction xs) (auto split: if_splits)

lemma primaries_ties:
  assumes "sort_key createdAt (filter (\<lambda>c. linkPrecedence c = Primary)
             (sort_key createdAt (filter Q rs))) = tp # others"
  shows "filter (\<lambda>c. Q c \<and> linkPrecedence c = Primary \<and> createdAt c = createdAt tp) rs
           = tp # filter (\<lambda>c. createdAt c = createdAt tp) others"
proof -
  let ?k = "\<lambda>c. createdAt c = createdAt tp"
  have "tp # filter ?k others = filter ?k (tp # others)" by simp
  also have "\<dots> = filter ?k (filter (\<lambda>c. linkPrecedence c = Primary)
                       (sort_key createdAt (filter Q rs)))"
    unfolding assms [symmetric] by (rule sort_key_stable)
  also have "\<dots> = filter (\<lambda>c. linkPrecedence c = Primary)
                     (filter ?k (sort_key createdAt (filter Q rs)))"
    by (simp add: conj_commute)
  also have "filter ?k (sort_key createdAt (filter Q rs)) = filter ?k (filter Q rs)"
    by (rule sort_key_stable)
  finally show ?thesis by (simp add: conj_commute conj_left_commute)
qed

subsection \<open>The forest of clusters\<close>

text \<open>
  The merge loop keeps a forest a forest: the stale primaries become secondaries of
  the true primary, and so do the live rows that pointed at them.
\<close>

lemma mergeRow_kept [simp]:
  "idOf (mergeRow tp olds t c) = idOf c" "deletedAt (mergeRow tp olds t c) = deletedAt c"
  "email (mergeRow tp olds t c) = email c" "phoneNumber (mergeRow tp olds t c) = phoneNumber c"
  "createdAt (mergeRow tp olds t c) = createdAt c"
  by (simp_all add: mergeRow_def demoteData_def relinkData_def)

lemma forest_ids: "forest rs \<Longrightarrow> a \<in> set rs \<Longrightarrow> b \<in> set rs \<Longrightarrow> idOf a = idOf b \<Longrightarrow> a = b"
  by (auto simp: forest_def distinct_map dest: inj_onD)

lemma forest_primary: "forest rs \<Longrightarrow> c \<in> set rs \<Longrightarrow> deletedAt c = None \<Longrightarrow>
    linkPrecedence c = Primary \<Longrightarrow> linkedId c = None"
  by (auto simp: forest_def)

lemma forest_secondary: "forest rs \<Longrightarrow> c \<in> set rs \<Longrightarrow> deletedAt c = None \<Longrightarrow>
    linkPrecedence c \<noteq> Primary \<Longrightarrow>
    \<exists>p \<in> set rs. deletedAt p = None \<and> linkPrecedence p = Primary \<and> linkedId c = Some (idOf p)"
  by (auto simp: forest_def)

lemma forestI:
  assumes "distinct (map idOf rs)"
    and "\<And>c. c \<in> set rs \<Longrightarrow> deletedAt c = None \<Longrightarrow> linkPrecedence c = Primary \<Longrightarrow> linkedId c = None"
    and "\<And>c. c \<in> set rs \<Longrightarrow> deletedAt c = None \<Longrightarrow> linkPrecedence c \<noteq> Primary \<Longrightarrow>
           \<exists>p \<in> set rs. deletedAt p = None \<and> linkPrecedence p = Primary \<and> linkedId c = Some (idOf p)"
  shows "forest rs"
  using assms unfolding forest_def by (auto split: if_splits)

lemma mergeRow_primary_fixed:
  assumes "mergeable rs tp olds" "p \<in> set rs" "deletedAt p = None" "linkPrecedence p = Primary"
    "idOf p \<notin> olds"
  shows "mergeRow (idOf tp) olds t p = p"
proof -
  from assms have "linkedId p = None" by (auto simp: mergeable_def dest: forest_primary)
  with assms(5) show ?thesis by (simp add: mergeRow_def)
qed

lemma mergeRow_tp: "mergeable rs tp olds \<Longrightarrow> mergeRow (idOf tp) olds t tp = tp"
  by (rule mergeRow_primary_fixed) (auto simp: mergeable_def)

lemma forest_mergeRow:
  assumes m: "mergeable rs tp olds"
  shows "forest (map (mergeRow (idOf tp) olds t) rs)"
proof (rule forestI)
  let ?m = "mergeRow (idOf tp) olds t"
  from m have f: "forest rs" by (simp add: mergeable_def)
  show "distinct (map idOf (map ?m rs))"
    using f by (simp add: forest_def comp_def)
  have tp_in: "tp \<in> set (map ?m rs)"
    using m mergeRow_tp [OF m, of t] by (force simp: mergeable_def)
  have tp_ok: "deletedAt tp = None" "linkPrecedence tp = Primary"
    using m by (simp_all add: mergeable_def)
  fix c' assume c': "c' \<in> set (map ?m rs)" and live': "deletedAt c' = None"
  then obtain c where c: "c \<in> set rs" "c' = ?m c" and live: "deletedAt c = None" by auto
  {
    assume prim: "linkPrecedence c' = Primary"
    have no: "idOf c \<notin> olds" using prim c by (auto simp: mergeRow_def demoteData_def split: if_splits)
    have pc: "linkPrecedence c = Primary"
      using prim c no by (auto simp: mergeRow_def relinkData_def split: if_splits)
    from mergeRow_primary_fixed [OF m c(1) live pc no] c forest_primary [OF f c(1) live pc]
    show "linkedId c' = None" by simp
  }
  {
    assume sec: "linkPrecedence c' \<noteq> Primary"
    show "\<exists>p \<in> set (map ?m rs). deletedAt p = None \<and> linkPrecedence p = Primary \<and>
            linkedId c' = Some (idOf p)"
    proof (cases "idOf c \<in> olds \<or> linkedId c \<in> Some ` olds")
      case True
      then have "linkedId c' = Some (idOf tp)"
        using c live by (auto simp: mergeRow_def demoteData_def relinkData_def)
      with tp_in tp_ok show ?thesis by blast
    next
      case False
      then have same: "c' = c" using c by (simp add: mergeRow_def)
      with sec forest_secondary [OF f c(1) live] obtain p where
        p: "p \<in> set rs" "deletedAt p = None" "linkPrecedence p = Primary" "linkedId c = Some (idOf p)"
        by auto
      with False have "idOf p \<notin> olds" by auto
      from mergeRow_primary_fixed [OF m p(1) p(2) p(3) this, of t] p same
      show ?thesis by force
    qed
  }
qed

lemma forest_append:
  assumes f: "forest rs" and fresh: "\<forall>c \<in> set rs. idOf c \<noteq> idOf n"
    and ok: "linkPrecedence n = Primary \<and> linkedId n = None \<or>
             linkPrecedence n = Secondary \<and>
             (\<exists>p \<in> set rs. deletedAt p = None \<and> linkPrecedence p = Primary \<and>
                linkedId n = Some (idOf p))"
  shows "forest (rs @ [n])"
proof (rule forestI)
  show "distinct (map idOf (rs @ [n]))" using f fresh by (auto simp: forest_def)
next
  fix c assume "c \<in> set (rs @ [n])" "deletedAt c = None" "linkPrecedence c = Primary"
  then show "linkedId c = None"
    using ok forest_primary [OF f] forest_primary [OF f, of _] by (cases "c = n") auto
next
  fix c assume "c \<in> set (rs @ [n])" "deletedAt c = None" "linkPrecedence c \<noteq> Primary"
  then show "\<exists>p \<in> set (rs @ [n]). deletedAt p = None \<and> linkPrecedence p = Primary \<and>
               linkedId c = Some (idOf p)"
    using ok forest_secondary [OF f, of c] by (cases "c = n") auto
qed

lemma matchingOf_set: "set (matchingOf w em ph) = {c \<in> set (rows w). matchWhere em ph c}"
  by (auto simp: matchingOf_def)

lemma candidatesOf_set:
  "set (candidatesOf w em ph) =
     {c \<in> set (rows w). clusterWhere (set (map rootId (matchingOf w em ph))) c}"
  by (auto simp: candidatesOf_def)

lemma primariesOf_set:
  "set (primariesOf w em ph) = {c \<in> set (candidatesOf w em ph). linkPrecedence c = Primary}"
  by (auto simp: primariesOf_def)

lemma primariesOf_distinct: "distinct (map idOf (rows w)) \<Longrightarrow> distinct (primariesOf w em ph)"
  by (simp add: primariesOf_def candidatesOf_def distinct_map)

lemma primariesOf_rows:
  assumes "p \<in> set (primariesOf w em ph)"
  shows "p \<in> set (rows w) \<and> deletedAt p = None \<and> linkPrecedence p = Primary"
  using assms by (auto simp: primariesOf_set candidatesOf_set clusterWhere_def)

lemma primaries_mergeable:
  assumes wf: "wellFormed w" and ps: "primariesOf w em ph = tp # others"
  shows "mergeable (rows w) tp (idOf ` set others)"
proof -
  from wf have f: "forest (rows w)" by (simp add: wellFormed_def)
  then have d: "distinct (map idOf (rows w))" by (simp add: forest_def)
  have tp: "tp \<in> set (rows w)" "deletedAt tp = None" "linkPrecedence tp = Primary"
    using primariesOf_rows [of tp w em ph] ps by simp_all
  have others: "p \<in> set (rows w) \<and> deletedAt p = None \<and> linkPrecedence p = Primary"
    if "p \<in> set others" for p
    using primariesOf_rows [of p w em ph] ps that by simp
  have "tp \<notin> set others" using primariesOf_distinct [OF d, of em ph] ps by simp
  then have notin: "idOf tp \<notin> idOf ` set others"
    using forest_ids [OF f tp(1)] others by auto
  have "deletedAt c = None \<and> linkPrecedence c = Primary"
    if "c \<in> set (rows w)" "idOf c \<in> idOf ` set others" for c
  proof -
    from that(2) obtain p where p: "p \<in> set others" "idOf c = idOf p" by auto
    with forest_ids [OF f that(1)] others [OF p(1)] have "c = p" by simp
    with others [OF p(1)] show ?thesis by simp
  qed
  with f tp notin show ?thesis unfolding mergeable_def by blast
qed

lemma resolveCluster_shape:
  assumes "resolveCluster cands w = (Inr (tp, members), w')"
  shows "\<exists>others.
           sort_key createdAt (filter (\<lambda>c. linkPrecedence c = Primary) cands) = tp # others \<and>
           rows w' = map (mergeRow (idOf tp) (idOf ` set others) (clock w)) (rows w) \<and>
           nextId w' = nextId w \<and> clock w' = clock w \<and>
           members = (if others = [] then cands
                      else sort_key createdAt (filter (refreshWhere (idOf tp)) (rows w')))"
proof -
  from resolveCluster_Inr [OF assms] obtain others where
    o: "sort_key createdAt (filter (\<lambda>c. linkPrecedence c = Primary) cands) = tp # others"
      "if others = [] then w' = w \<and> members = cands
       else rows w' = map (mergeRow (idOf tp) (idOf ` set others) (clock w)) (rows w) \<and>
            nextId w' = nextId w \<and> clock w' = clock w \<and>
            members = sort_key createdAt (filter (refreshWhere (idOf tp)) (rows w'))"
    by blast
  have e: "map (mergeRow (idOf tp) {} (clock w)) (rows w) = rows w"
    by (rule map_idI) (simp add: mergeRow_empty)
  from o e show ?thesis by (cases "others = []") auto
qed

text \<open>A successful request for which something matched, step by step.\<close>

lemma run_shape:
  assumes "identifyContact w em ph = (Inr r, w')" and "matchingOf w em ph \<noteq> []"
  shows "\<exists>tp others members.
           primariesOf w em ph = tp # others \<and>
           members = (if others = [] then candidatesOf w em ph
                      else sort_key createdAt (filter (refreshWhere (idOf tp))
                             (map (mergeRow (idOf tp) (idOf ` set others) (clock w)) (rows w)))) \<and>
           primaryContactId r = idOf tp \<and>
           None \<notin> set (map rootId (matchingOf w em ph)) \<and>
           (if introducesNew em ph members then
              rows w' = map (mergeRow (idOf tp) (idOf ` set others) (clock w)) (rows w)
                          @ [newRow w em ph (Some (idOf tp)) Secondary] \<and>
              nextId w' = Suc (nextId w) \<and>
              buildResponse (idOf tp) (members @ [newRow w em ph (Some (idOf tp)) Secondary])
                (map idOf (filter (\<lambda>c. linkPrecedence c = Secondary)
                   (members @ [newRow w em ph (Some (idOf tp)) Secondary]))) = Inr r
            else
              rows w' = map (mergeRow (idOf tp) (idOf ` set others) (clock w)) (rows w) \<and>
              nextId w' = nextId w \<and>
              buildResponse (idOf tp) members
                (map idOf (filter (\<lambda>c. linkPrecedence c = Secondary) members)) = Inr r)"
proof -
  let ?w2 = "attempt FindMany (attempt FindMany w)"
  from identifyContact_Inr_match [OF assms] obtain tp members w3 where
    n: "None \<notin> set (map rootId (matchingOf w em ph))" and
    rc: "resolveCluster (candidatesOf w em ph) ?w2 = (Inr (tp, members), w3)" and
    fin: "finishIdentify em ph tp members w3 = (Inr r, w')"
    by blast
  from resolveCluster_shape [OF rc] obtain others where
    ps: "primariesOf w em ph = tp # others" and
    rw: "rows w3 = map (mergeRow (idOf tp) (idOf ` set others) (clock w)) (rows w)" and
    ni: "nextId w3 = nextId w" and cl: "clock w3 = clock w" and
    ms: "members = (if others = [] then candidatesOf w em ph
                    else sort_key createdAt (filter (refreshWhere (idOf tp)) (rows w3)))"
    by (auto simp: primariesOf_def)
  have nr: "newRow w3 em ph (Some (idOf tp)) Secondary = newRow w em ph (Some (idOf tp)) Secondary"
    using ni cl by (simp add: newRow_def)
  from finishIdentify_Inr [OF fin]
  have "primaryContactId r = idOf tp \<and>
        (if introducesNew em ph members then
              rows w' = rows w3 @ [newRow w em ph (Some (idOf tp)) Secondary] \<and>
              nextId w' = Suc (nextId w) \<and>
              buildResponse (idOf tp) (members @ [newRow w em ph (Some (idOf tp)) Secondary])
                (map idOf (filter (\<lambda>c. linkPrecedence c = Secondary)
                   (members @ [newRow w em ph (Some (idOf tp)) Secondary]))) = Inr r
            else
              rows w' = rows w3 \<and> nextId w' = nextId w \<and>
              buildResponse (idOf tp) members
                (map idOf (filter (\<lambda>c. linkPrecedence c = Secondary) members)) = Inr r)"
    unfolding nr using ni by (auto split: if_splits)
  with ps ms n show ?thesis unfolding rw by blast
qed

lemma primariesOf_matching:
  assumes "primariesOf w em ph \<noteq> []"
  shows "matchingOf w em ph \<noteq> []"
proof
  assume "matchingOf w em ph = []"
  then have "candidatesOf w em ph = []"
    by (simp add: candidatesOf_def clusterWhere_def)
  with assms show False by (simp add: primariesOf_def)
qed

lemma primariesOf_sorted:
  "primariesOf w em ph = tp # others \<Longrightarrow> \<forall>p \<in> set others. createdAt tp \<le> createdAt p"
proof -
  assume ps: "primariesOf w em ph = tp # others"
  have "sorted (map createdAt (primariesOf w em ph))" by (simp add: primariesOf_def)
  then show ?thesis by (simp add: ps)
qed

lemma forest_depth:
  assumes f: "forest rs" and c: "c \<in> set rs" "deletedAt c = None" "linkPrecedence c = Secondary"
    and d: "d \<in> set rs" "linkedId c = Some (idOf d)"
  shows "linkPrecedence d = Primary"
proof -
  from forest_secondary [OF f c(1) c(2)] c(3) obtain p where
    p: "p \<in> set rs" "linkPrecedence p = Primary" "linkedId c = Some (idOf p)" by auto
  with d have "idOf d = idOf p" by simp
  from forest_ids [OF f d(1) p(1) this] p show ?thesis by simp
qed

lemma wellFormed_emptyWorld: "wellFormed emptyWorld"
  by (simp add: wellFormed_def forest_def emptyWorld_def)

text \<open>
  The invariant of the data model holds of the empty table, and every request that
  returns a response keeps it.
\<close>

lemma wellFormed_identifyContact:
  assumes wf: "wellFormed w" and run: "identifyContact w em ph = (Inr r, w')"
  shows "wellFormed w'"
proof (cases "matchingOf w em ph = []")
  case True
  from identifyContact_Inr_nomatch [OF run True]
  have rw: "rows w' = rows w @ [newRow w em ph None Primary]" and ni: "nextId w' = Suc (nextId w)"
    by simp_all
  from wf have f: "forest (rows w)" and lt: "\<forall>c \<in> set (rows w). idOf c < nextId w"
    by (simp_all add: wellFormed_def)
  have "forest (rows w @ [newRow w em ph None Primary])"
    using f lt by (intro forest_append) (auto simp: newRow_def)
  with lt show ?thesis
    unfolding wellFormed_def rw ni by (auto simp: newRow_def less_Suc_eq)
next
  case False
  from run_shape [OF run False] obtain tp others members where
    ps: "primariesOf w em ph = tp # others" and
    rw: "rows w' = map (mergeRow (idOf tp) (idOf ` set others) (clock w)) (rows w)
                     @ [newRow w em ph (Some (idOf tp)) Secondary] \<and> nextId w' = Suc (nextId w)
         \<or> rows w' = map (mergeRow (idOf tp) (idOf ` set others) (clock w)) (rows w) \<and>
           nextId w' = nextId w"
    by (auto split: if_splits)
  let ?rm = "map (mergeRow (idOf tp) (idOf ` set others) (clock w)) (rows w)"
  note m = primaries_mergeable [OF wf ps]
  have f: "forest ?rm" using m by (rule forest_mergeRow)
  from wf have lt: "\<forall>c \<in> set ?rm. idOf c < nextId w" by (auto simp: wellFormed_def)
  have tp: "tp \<in> set ?rm" "deletedAt tp = None" "linkPrecedence tp = Primary"
    using m mergeRow_tp [OF m, of "clock w"] by (force simp: mergeable_def)+
  from rw show ?thesis
  proof
    assume a: "rows w' = ?rm @ [newRow w em ph (Some (idOf tp)) Secondary] \<and>
               nextId w' = Suc (nextId w)"
    have fresh: "\<forall>c \<in> set ?rm. idOf c \<noteq> idOf (newRow w em ph (Some (idOf tp)) Secondary)"
      using lt by (auto simp: newRow_def)
    have "\<exists>p \<in> set ?rm. deletedAt p = None \<and> linkPrecedence p = Primary \<and>
            linkedId (newRow w em ph (Some (idOf tp)) Secondary) = Some (idOf p)"
      using tp by (intro bexI [of _ tp]) (simp_all add: newRow_def)
    then have ok: "linkPrecedence (newRow w em ph (Some (idOf tp)) Secondary) = Primary \<and>
                   linkedId (newRow w em ph (Some (idOf tp)) Secondary) = None \<or>
                   linkPrecedence (newRow w em ph (Some (idOf tp)) Secondary) = Secondary \<and>
                   (\<exists>p \<in> set ?rm. deletedAt p = None \<and> linkPrecedence p = Primary \<and>
                      linkedId (newRow w em ph (Some (idOf tp)) Secondary) = Some (idOf p))"
      by (simp add: newRow_def)
    have "forest (?rm @ [newRow w em ph (Some (idOf tp)) Secondary])"
      using f fresh ok by (rule forest_append)
    with lt a show ?thesis
      unfolding wellFormed_def by (auto simp: newRow_def less_Suc_eq)
  next
    assume "rows w' = ?rm \<and> nextId w' = nextId w"
    with f lt show ?thesis unfolding wellFormed_def by simp
  qed
qed

lemma set_valuesOf: "set (valuesOf vs) = {s. s \<noteq> [] \<and> Some s \<in> set vs}"
  by (force simp: valuesOf_def truthy_def split: option.splits)

lemma buildResponse_sets:
  assumes inj: "inj_on idOf (set cs)" and b: "buildResponse pid cs ss = Inr r"
  shows "set (emails r) = {s. s \<noteq> [] \<and> Some s \<in> email ` set cs} \<and>
         set (phoneNumbers r) = {s. s \<noteq> [] \<and> Some s \<in> phoneNumber ` set cs}"
proof -
  from b obtain primary where
    p: "find (\<lambda>c. idOf c = pid) cs = Some primary"
    by (auto simp: buildResponse_def split: option.splits)
  define rest where "rest = filter (\<lambda>c. idOf c \<noteq> pid) cs"
  have e: "emails r = firstOcc (valuesOf (map email (primary # rest)))"
    using b p
    by (auto simp: buildResponse_def Let_def rest_def fold_pushNew_field
          simp del: firstOcc.simps list.map)
  have n: "phoneNumbers r = firstOcc (valuesOf (map phoneNumber (primary # rest)))"
    using b p
    by (auto simp: buildResponse_def Let_def rest_def fold_pushNew_field
          simp del: firstOcc.simps list.map)
  from p have pin: "primary \<in> set cs" "idOf primary = pid"
    by (auto simp: find_Some_iff)
  have "set (primary # rest) = set cs"
  proof
    show "set (primary # rest) \<subseteq> set cs" using pin by (auto simp: rest_def)
    show "set cs \<subseteq> set (primary # rest)"
    proof
      fix c assume c: "c \<in> set cs"
      show "c \<in> set (primary # rest)"
      proof (cases "idOf c = pid")
        case True
        with inj c pin have "c = primary" by (auto dest: inj_onD)
        then show ?thesis by simp
      next
        case False
        with c show ?thesis by (simp add: rest_def)
      qed
    qed
  qed
  then have s: "set (map f (primary # rest)) = f ` set cs" for f :: "contact \<Rightarrow> string option"
    by (simp only: set_map)
  show ?thesis
    by (simp only: e n set_firstOcc set_valuesOf s) 
qed

lemma buildResponse_total:
  assumes "c \<in> set cs" "idOf c = pid"
  shows "\<exists>r. buildResponse pid cs ss = Inr r"
proof -
  from assms have "find (\<lambda>c. idOf c = pid) cs \<noteq> None"
    by (auto simp: find_None_iff)
  then show ?thesis by (auto simp: buildResponse_def Let_def)
qed

lemma buildResponse_primaryId: "buildResponse i cs ss = Inr r \<Longrightarrow> primaryContactId r = i"
  by (auto simp: buildResponse_def Let_def split: option.splits)

lemma introducesNew_set:
  "set ms = set ms' \<Longrightarrow> introducesNew em ph ms = introducesNew em ph ms'"
  by (simp add: introducesNew_def)

lemma distinct_singleton:
  assumes "distinct ys" "set ys = {x}"
  shows "ys = [x]"
proof (cases ys)
  case Nil
  with assms show ?thesis by simp
next
  case outer: (Cons y zs)
  have "y \<in> set ys" using outer by simp
  then have y: "y = x" unfolding assms(2) by simp
  have "zs = []"
  proof (cases zs)
    case Nil
    then show ?thesis .
  next
    case (Cons z zs')
    then have "z \<in> set ys" using outer by simp
    then have "z = x" unfolding assms(2) by simp
    with y Cons outer assms(1) show ?thesis by simp
  qed
  with outer y show ?thesis by simp
qed

lemma filter_single:
  assumes "distinct xs" "x \<in> set xs" "P x" "\<And>y. y \<in> set xs \<Longrightarrow> P y \<Longrightarrow> y = x"
  shows "filter P xs = [x]"
proof -
  have d: "distinct (filter P xs)" using assms(1) by simp
  have "set (filter P xs) = {x}"
  proof (rule set_eqI)
    fix y
    show "y \<in> set (filter P xs) \<longleftrightarrow> y \<in> {x}"
    proof
      assume "y \<in> set (filter P xs)"
      then have "y \<in> set xs" "P y" by simp_all
      then have "y = x" by (rule assms(4))
      then show "y \<in> {x}" by simp
    next
      assume "y \<in> {x}"
      then have "y = x" by simp
      with assms(2,3) show "y \<in> set (filter P xs)" by simp
    qed
  qed
  with d show ?thesis by (rule distinct_singleton)
qed

text \<open>
  On a well-formed table, the root of a matched contact is a primary of the
  candidate set, and after the merge it is the true primary.
\<close>

lemma root_primary:
  assumes wf: "wellFormed w" and c: "c \<in> set (matchingOf w em ph)"
  shows "\<exists>p \<in> set (primariesOf w em ph).
           rootId c = Some (idOf p) \<and>
           (if linkPrecedence c = Primary then p = c else linkedId c = Some (idOf p))"
proof -
  from wf have f: "forest (rows w)" by (simp add: wellFormed_def)
  from c have cr: "c \<in> set (rows w)" and live: "deletedAt c = None"
    by (auto simp: matchingOf_set matchWhere_def)
  have root: "rootId c \<in> set (map rootId (matchingOf w em ph))" using c by simp
  show ?thesis
  proof (cases "linkPrecedence c = Primary")
    case True
    then have r: "rootId c = Some (idOf c)" by (simp add: rootId_def)
    with root cr live True have "c \<in> set (primariesOf w em ph)"
      by (simp add: primariesOf_set candidatesOf_set clusterWhere_def)
    with r True show ?thesis by auto
  next
    case False
    from forest_secondary [OF f cr live False] obtain p where
      p: "p \<in> set (rows w)" "deletedAt p = None" "linkPrecedence p = Primary"
        "linkedId c = Some (idOf p)" by auto
    from False p have r: "rootId c = Some (idOf p)" by (simp add: rootId_def)
    with root p have "p \<in> set (primariesOf w em ph)"
      by (simp add: primariesOf_set candidatesOf_set clusterWhere_def)
    with r p False show ?thesis by auto
  qed
qed

lemma root_after_merge:
  assumes wf: "wellFormed w" and ps: "primariesOf w em ph = tp # others"
    and c: "c \<in> set (matchingOf w em ph)"
  shows "rootId (mergeRow (idOf tp) (idOf ` set others) t c) = Some (idOf tp)"
proof -
  note m = primaries_mergeable [OF wf ps]
  from c have cr: "c \<in> set (rows w)" and live: "deletedAt c = None"
    by (auto simp: matchingOf_set matchWhere_def)
  from root_primary [OF wf c] ps obtain p where
    p: "p = tp \<or> p \<in> set others" "rootId c = Some (idOf p)"
      "if linkPrecedence c = Primary then p = c else linkedId c = Some (idOf p)"
    by auto
  show ?thesis
  proof (cases "linkPrecedence c = Primary")
    case True
    with p have pc: "p = c" by simp
    from p(1) show ?thesis
    proof
      assume "p = tp"
      with pc mergeRow_tp [OF m, of t] True show ?thesis by (simp add: rootId_def)
    next
      assume "p \<in> set others"
      with pc show ?thesis by (simp add: mergeRow_def demoteData_def rootId_def)
    qed
  next
    case False
    with p have l: "linkedId c = Some (idOf p)" by simp
    from False m cr have no: "idOf c \<notin> idOf ` set others" by (auto simp: mergeable_def)
    from p(1) show ?thesis
    proof
      assume "p = tp"
      with l m have "linkedId c \<notin> Some ` idOf ` set others" by (auto simp: mergeable_def)
      with no have "mergeRow (idOf tp) (idOf ` set others) t c = c" by (simp add: mergeRow_def)
      with False l \<open>p = tp\<close> show ?thesis by (simp add: rootId_def)
    next
      assume "p \<in> set others"
      with l have "linkedId c \<in> Some ` idOf ` set others" by simp
      with no live False show ?thesis
        by (simp add: mergeRow_def relinkData_def rootId_def)
    qed
  qed
qed

lemma matchWhere_mergeRow [simp]:
  "matchWhere em ph (mergeRow tp olds t c) = matchWhere em ph c"
  by (simp add: matchWhere_def)

lemma clusterWhere_single: "clusterWhere {Some i} = refreshWhere i"
  by (auto simp: clusterWhere_def refreshWhere_def fun_eq_iff)

lemma again_fields [simp]:
  "rows (again w t) = rows w" "nextId (again w t) = nextId w" "trace (again w t) = trace w"
  "failAfter (again w t) = None"
  by (simp_all add: again_def)

lemma serving:
  "failAfter v = None \<Longrightarrow> \<not> failing v \<and> \<not> failing (attempt k v)"
  by (simp add: failing_def attempt_def)

lemma roots_single:
  assumes "xs \<noteq> []" and "\<forall>c \<in> set xs. rootId c = r"
  shows "set (map rootId xs) = {r}"
proof -
  from assms(1) obtain x where "x \<in> set xs" by (cases xs) auto
  with assms(2) show ?thesis by auto
qed

lemma candidatesOf_single:
  assumes "matchingOf v em ph \<noteq> []"
    and "\<forall>c \<in> set (matchingOf v em ph). rootId c = Some i"
  shows "candidatesOf v em ph = sort_key createdAt (filter (refreshWhere i) (rows v))"
  by (simp only: candidatesOf_def roots_single [OF assms] clusterWhere_single)

text \<open>
  A request on a forest whose matches all have the live primary \<open>tp\<close> as root, and
  which brings nothing new to the cluster of \<open>tp\<close>: it reads twice and answers.
\<close>

lemma settled_run:
  assumes f: "forest (rows v)" and nf: "failAfter v = None"
    and tp: "tp \<in> set (rows v)" "deletedAt tp = None" "linkPrecedence tp = Primary"
    and ne: "matchingOf v em ph \<noteq> []"
    and roots: "\<forall>c \<in> set (matchingOf v em ph). rootId c = Some (idOf tp)"
    and old: "\<not> introducesNew em ph (filter (refreshWhere (idOf tp)) (rows v))"
  shows "\<exists>r2. identifyContact v em ph = (Inr r2, attempt FindMany (attempt FindMany v)) \<and>
              buildResponse (idOf tp) (candidatesOf v em ph)
                (map idOf (filter (\<lambda>c. linkPrecedence c = Secondary) (candidatesOf v em ph)))
                = Inr r2 \<and>
              set (candidatesOf v em ph) = set (filter (refreshWhere (idOf tp)) (rows v))"
proof -
  let ?cs = "candidatesOf v em ph"
  let ?v2 = "attempt FindMany (attempt FindMany v)"
  have cs: "?cs = sort_key createdAt (filter (refreshWhere (idOf tp)) (rows v))"
    using ne roots by (rule candidatesOf_single)
  then have scs: "set ?cs = set (filter (refreshWhere (idOf tp)) (rows v))" by simp
  have d: "distinct ?cs" using f by (simp add: cs forest_def distinct_map)
  have tpc: "tp \<in> set ?cs" using tp by (simp add: scs refreshWhere_def)
  have uniq: "y = tp" if "y \<in> set ?cs" "linkPrecedence y = Primary" for y
  proof -
    from that(1) have y: "y \<in> set (rows v)" "deletedAt y = None"
      "idOf y = idOf tp \<or> linkedId y = Some (idOf tp)"
      by (auto simp: scs refreshWhere_def)
    from forest_primary [OF f y(1) y(2) that(2)] y(3) have "idOf y = idOf tp" by simp
    from forest_ids [OF f y(1) tp(1) this] show ?thesis .
  qed
  have "filter (\<lambda>c. linkPrecedence c = Primary) ?cs = [tp]"
    using d tpc tp(3) uniq by (rule filter_single)
  then have rc: "resolveCluster ?cs ?v2 = (Inr (tp, ?cs), ?v2)"
    by (simp add: resolveCluster_def)
  have "\<not> introducesNew em ph ?cs"
    using old introducesNew_set [OF scs, of em ph] by simp
  then have fin: "finishIdentify em ph tp ?cs ?v2 =
      (buildResponse (idOf tp) ?cs (map idOf (filter (\<lambda>c. linkPrecedence c = Secondary) ?cs)), ?v2)"
    by (simp add: finishIdentify_eq)
  from buildResponse_total [OF tpc refl] obtain r2 where
    b: "buildResponse (idOf tp) ?cs (map idOf (filter (\<lambda>c. linkPrecedence c = Secondary) ?cs)) = Inr r2"
    by blast
  have n: "None \<notin> set (map rootId (matchingOf v em ph))"
    using roots by auto
  have "identifyContact v em ph = (Inr r2, ?v2)"
    using matchingOf_truthy [OF ne] serving [OF nf] ne n rc fin b
    by (simp add: identifyContact_eq)
  with b scs show ?thesis by blast
qed

lemma rerun_core:
  assumes f: "forest (rows w')"
    and tp: "tp \<in> set (rows w')" "deletedAt tp = None" "linkPrecedence tp = Primary"
    and some: "x \<in> set (rows w')" "matchWhere em ph x"
    and roots: "\<And>c. c \<in> set (rows w') \<Longrightarrow> matchWhere em ph c \<Longrightarrow> rootId c = Some (idOf tp)"
    and b1: "buildResponse (idOf tp) ms ss = Inr r"
    and sm: "set ms = set (filter (refreshWhere (idOf tp)) (rows w'))"
    and old: "\<not> introducesNew em ph ms"
  shows "\<exists>r2 w2. identifyContact (again w' t) em ph = (Inr r2, w2) \<and>
           primaryContactId r2 = primaryContactId r \<and>
           set (emails r2) = set (emails r) \<and> set (phoneNumbers r2) = set (phoneNumbers r) \<and>
           rows w2 = rows w' \<and> nextId w2 = nextId w' \<and>
           trace w2 = trace w' @ [FindMany, FindMany]"
proof -
  let ?v = "again w' t"
  have ne: "matchingOf ?v em ph \<noteq> []"
  proof
    assume "matchingOf ?v em ph = []"
    then have "set (matchingOf ?v em ph) = {}" by simp
    with some show False by (simp add: matchingOf_set)
  qed
  have rs: "\<forall>c \<in> set (matchingOf ?v em ph). rootId c = Some (idOf tp)"
    using roots by (simp add: matchingOf_set)
  have old': "\<not> introducesNew em ph (filter (refreshWhere (idOf tp)) (rows ?v))"
    using old introducesNew_set [OF sm, of em ph] by simp
  from settled_run [of ?v tp em ph] f tp ne rs old'
  obtain r2 where
    run2: "identifyContact ?v em ph = (Inr r2, attempt FindMany (attempt FindMany ?v))" and
    b2: "buildResponse (idOf tp) (candidatesOf ?v em ph)
           (map idOf (filter (\<lambda>c. linkPrecedence c = Secondary) (candidatesOf ?v em ph))) = Inr r2" and
    sc: "set (candidatesOf ?v em ph) = set (filter (refreshWhere (idOf tp)) (rows ?v))"
    by auto
  have inj: "inj_on idOf (set (rows w'))" using f by (simp add: forest_def distinct_map)
  have i1: "inj_on idOf (set ms)"
    using inj by (rule inj_on_subset) (auto simp: sm)
  have i2: "inj_on idOf (set (candidatesOf ?v em ph))"
    using inj by (rule inj_on_subset) (auto simp: sc)
  have same: "set (candidatesOf ?v em ph) = set ms" by (simp only: sc sm again_fields)
  from buildResponse_sets [OF i1 b1] buildResponse_sets [OF i2 b2]
  have "set (emails r2) = set (emails r)" "set (phoneNumbers r2) = set (phoneNumbers r)"
    by (simp_all only: same)
  moreover have "primaryContactId r2 = primaryContactId r"
    using buildResponse_primaryId [OF b1] buildResponse_primaryId [OF b2] by simp
  ultimately show ?thesis using run2 by simp
qed

lemma no_member_of_fresh:
  assumes wf: "wellFormed w" and c: "c \<in> set (rows w)"
  shows "\<not> refreshWhere (nextId w) c"
proof
  assume r: "refreshWhere (nextId w) c"
  from wf have f: "forest (rows w)" and lt: "\<forall>c \<in> set (rows w). idOf c < nextId w"
    by (simp_all add: wellFormed_def)
  from r have live: "deletedAt c = None" by (simp add: refreshWhere_def)
  from lt c have "idOf c \<noteq> nextId w" by auto
  with r have l: "linkedId c = Some (nextId w)" by (simp add: refreshWhere_def)
  show False
  proof (cases "linkPrecedence c = Primary")
    case True
    from forest_primary [OF f c live True] l show False by simp
  next
    case False
    from forest_secondary [OF f c live False] l obtain p where
      "p \<in> set (rows w)" "idOf p = nextId w" by auto
    with lt show False by auto
  qed
qed

text \<open>The definitions an example run unfolds.\<close>

lemmas eval_defs =
  identifyContact_def findMany_def failing_def attempt_def matchWhere_def
  truthy_def row_def rootId_def clusterWhere_def resolveCluster_def demoteOne_def update_def
  updateMany_def demoteData_def relinkData_def refreshWhere_def finishIdentify_def
  buildResponse_def pushNew_def create_def Let_def

lemma one_eval:
  "identifyContact oneWorld (Some ''b'') (Some ''1'') =
    (Inr \<lparr>primaryContactId = 1, emails = [''a'', ''b''], phoneNumbers = [''1''], secondaryContactIds = [2]\<rparr>,
     \<lparr>rows = [row 1 (Some ''a'') (Some ''1'') None Primary 5,
              row 2 (Some ''b'') (Some ''1'') (Some 1) Secondary 9],
      nextId = 3, clock = 9, trace = [FindMany, FindMany, Create], failAfter = None\<rparr>)"
  by (simp add: oneWorld_def eval_defs)

lemma one_matching:
  "matchingOf oneWorld (Some ''b'') (Some ''1'') = [row 1 (Some ''a'') (Some ''1'') None Primary 5]"
  by (simp add: matchingOf_def oneWorld_def matchWhere_def row_def truthy_def)

lemma merge_eval:
  "identifyContact mergeWorld (Some ''a'') (Some ''2'') =
    (Inr \<lparr>primaryContactId = 1, emails = [''a'', ''b'', ''c''], phoneNumbers = [''1'', ''2''],
          secondaryContactIds = [2, 3]\<rparr>,
     \<lparr>rows = [row 1 (Some ''a'') (Some ''1'') None Primary 5,
              (row 2 (Some ''b'') (Some ''2'') (Some 1) Secondary 6)\<lparr>updatedAt := 9\<rparr>,
              (row 3 (Some ''c'') (Some ''2'') (Some 1) Secondary 7)\<lparr>updatedAt := 9\<rparr>],
      nextId = 4, clock = 9, trace = [FindMany, FindMany, Update, UpdateMany, FindMany],
      failAfter = None\<rparr>)"
  by (simp add: mergeWorld_def eval_defs)

lemma merge_matching:
  "matchingOf mergeWorld (Some ''a'') (Some ''2'') =
     [row 1 (Some ''a'') (Some ''1'') None Primary 5,
      row 2 (Some ''b'') (Some ''2'') None Primary 6,
      row 3 (Some ''c'') (Some ''2'') (Some 2) Secondary 7]"
  by (simp add: matchingOf_def mergeWorld_def matchWhere_def row_def truthy_def)

lemma merge_primaries:
  "primariesOf mergeWorld (Some ''a'') (Some ''2'') =
     [row 1 (Some ''a'') (Some ''1'') None Primary 5,
      row 2 (Some ''b'') (Some ''2'') None Primary 6]"
  by (simp add: primariesOf_def candidatesOf_def merge_matching)
     (simp add: mergeWorld_def clusterWhere_def rootId_def row_def)

lemma tie_eval:
  "identifyContact tieWorld (Some ''a'') (Some ''2'') =
    (Inr \<lparr>primaryContactId = 2, emails = [''a'', ''b''], phoneNumbers = [''1'', ''2''], secondaryContactIds = [1]\<rparr>,
     \<lparr>rows = [row 2 (Some ''a'') (Some ''1'') None Primary 5,
              (row 1 (Some ''b'') (Some ''2'') (Some 2) Secondary 5)\<lparr>updatedAt := 9\<rparr>],
      nextId = 3, clock = 9, trace = [FindMany, FindMany, Update, UpdateMany, FindMany], failAfter = None\<rparr>)"
  by (simp add: identifyContact_def tieWorld_def findMany_def failing_def attempt_def matchWhere_def
      truthy_def row_def rootId_def clusterWhere_def resolveCluster_def demoteOne_def update_def
      updateMany_def demoteData_def relinkData_def refreshWhere_def finishIdentify_def
      buildResponse_def pushNew_def create_def Let_def)

lemma tie_matching:
  "matchingOf tieWorld (Some ''a'') (Some ''2'') =
     [row 2 (Some ''a'') (Some ''1'') None Primary 5,
      row 1 (Some ''b'') (Some ''2'') None Primary 5]"
  by (simp add: matchingOf_def tieWorld_def matchWhere_def row_def truthy_def)

lemma tie_primaries:
  "primariesOf tieWorld (Some ''a'') (Some ''2'') =
     [row 2 (Some ''a'') (Some ''1'') None Primary 5,
      row 1 (Some ''b'') (Some ''2'') None Primary 5]"
  by (simp add: primariesOf_def candidatesOf_def tie_matching)
     (simp add: tieWorld_def clusterWhere_def rootId_def row_def)

lemma tied_eval:
  "identifyContact tiedWorld (Some ''a'') (Some ''2'') =
    (Inr \<lparr>primaryContactId = 1, emails = [''a'', ''b''], phoneNumbers = [''1'', ''2''],
          secondaryContactIds = [2]\<rparr>,
     \<lparr>rows = [row 1 (Some ''a'') (Some ''1'') None Primary 5,
              (row 2 (Some ''b'') (Some ''2'') (Some 1) Secondary 5)\<lparr>updatedAt := 9\<rparr>],
      nextId = 3, clock = 9, trace = [FindMany, FindMany, Update, UpdateMany, FindMany],
      failAfter = None\<rparr>)"
  by (simp add: tiedWorld_def eval_defs)

lemma tied_matching:
  "matchingOf tiedWorld (Some ''a'') (Some ''2'') =
     [row 1 (Some ''a'') (Some ''1'') None Primary 5,
      row 2 (Some ''b'') (Some ''2'') None Primary 5]"
  by (simp add: matchingOf_def tiedWorld_def matchWhere_def row_def truthy_def)

lemma tied_primaries:
  "primariesOf tiedWorld (Some ''a'') (Some ''2'') =
     [row 1 (Some ''a'') (Some ''1'') None Primary 5,
      row 2 (Some ''b'') (Some ''2'') None Primary 5]"
  by (simp add: primariesOf_def candidatesOf_def tied_matching)
     (simp add: tiedWorld_def clusterWhere_def rootId_def row_def)

lemma wellFormed_keyed: "wellFormed w = (keyed w \<and> forest (rows w))"
  by (auto simp: wellFormed_def keyed_def forest_def)

lemma distinct_ids: "distinct (map idOf rs) \<Longrightarrow> a \<in> set rs \<Longrightarrow> b \<in> set rs \<Longrightarrow>
    idOf a = idOf b \<Longrightarrow> a = b"
  by (auto simp: distinct_map dest: inj_onD)

lemma keyed_mergeWorld: "keyed mergeWorld"
  by (simp add: keyed_def mergeWorld_def row_def)

lemma forest_mergeWorld: "forest (rows mergeWorld)"
  by (simp add: forest_def mergeWorld_def row_def)

lemma keyed_stalledWorld: "keyed stalledWorld"
  by (simp add: keyed_def stalledWorld_def row_def)

lemma keyed_crashWorld: "keyed crashWorld"
  by (simp add: keyed_def crashWorld_def row_def)

lemma forest_crashWorld: "forest (rows crashWorld)"
  by (simp add: forest_def crashWorld_def row_def)

lemma stalled_matching:
  "matchingOf stalledWorld (Some ''c'') (Some ''2'') =
     [row 2 (Some ''b'') (Some ''2'') None Primary 6,
      (row 3 (Some ''c'') (Some ''3'') (Some 1) Secondary 7)\<lparr>updatedAt := 9\<rparr>,
      row 4 (Some ''c'') (Some ''4'') (Some 3) Secondary 8]"
  by (simp add: matchingOf_def stalledWorld_def matchWhere_def row_def truthy_def)

lemma stalled_primaries:
  "primariesOf stalledWorld (Some ''c'') (Some ''2'') =
     [row 1 (Some ''a'') (Some ''1'') None Primary 5,
      row 2 (Some ''b'') (Some ''2'') None Primary 6]"
  by (simp add: primariesOf_def candidatesOf_def stalled_matching)
     (simp add: stalledWorld_def clusterWhere_def rootId_def row_def)

lemma crash_matching:
  "matchingOf crashWorld (Some ''a'') (Some ''2'') =
     [row 1 (Some ''a'') (Some ''1'') None Primary 5,
      row 2 (Some ''b'') (Some ''2'') None Primary 6,
      row 3 (Some ''c'') (Some ''2'') (Some 2) Secondary 7]"
  by (simp add: matchingOf_def crashWorld_def matchWhere_def row_def truthy_def)

lemma crash_primaries:
  "primariesOf crashWorld (Some ''a'') (Some ''2'') =
     [row 1 (Some ''a'') (Some ''1'') None Primary 5,
      row 2 (Some ''b'') (Some ''2'') None Primary 6]"
  by (simp add: primariesOf_def candidatesOf_def crash_matching)
     (simp add: crashWorld_def clusterWhere_def rootId_def row_def)

lemma crash_eval:
  "identifyContact crashWorld (Some ''a'') (Some ''2'') =
    (Inl StoreFailure,
     \<lparr>rows = [row 1 (Some ''a'') (Some ''1'') None Primary 5,
              (row 2 (Some ''b'') (Some ''2'') (Some 1) Secondary 6)\<lparr>updatedAt := 9\<rparr>,
              row 3 (Some ''c'') (Some ''2'') (Some 2) Secondary 7],
      nextId = 4, clock = 9, trace = [FindMany, FindMany, Update, UpdateMany],
      failAfter = Some 0\<rparr>)"
  by (simp add: crashWorld_def eval_defs)

lemma wellFormed_mergeWorld: "wellFormed mergeWorld"
  by (simp add: wellFormed_def forest_def mergeWorld_def row_def)

lemma wellFormed_stallWorld: "wellFormed stallWorld"
  by (simp add: wellFormed_def forest_def stallWorld_def row_def)

lemma stall_eval:
  "identifyContact stallWorld (Some ''a'') (Some ''3'') =
     (Inl StoreFailure, stalledWorld\<lparr>clock := 9, failAfter := Some 0\<rparr>)"
  by (simp add: stallWorld_def stalledWorld_def eval_defs)

lemma stalled_eval:
  "identifyContact stalledWorld (Some ''c'') (Some ''2'') =
     (Inr \<lparr>primaryContactId = 1, emails = [''a'', ''b'', ''c''],
           phoneNumbers = [''1'', ''2'', ''3''], secondaryContactIds = [2, 3]\<rparr>,
      \<lparr>rows = [row 1 (Some ''a'') (Some ''1'') None Primary 5,
               (row 2 (Some ''b'') (Some ''2'') (Some 1) Secondary 6)\<lparr>updatedAt := 10\<rparr>,
               (row 3 (Some ''c'') (Some ''3'') (Some 1) Secondary 7)\<lparr>updatedAt := 9\<rparr>,
               row 4 (Some ''c'') (Some ''4'') (Some 3) Secondary 8],
       nextId = 5, clock = 10,
       trace = [FindMany, FindMany, Update, UpdateMany, FindMany, FindMany, Update,
                UpdateMany, FindMany],
       failAfter = None\<rparr>)"
  by (simp add: stalledWorld_def eval_defs)

lemma stalled_again_eval:
  "fst (identifyContact
     (again \<lparr>rows = [row 1 (Some ''a'') (Some ''1'') None Primary 5,
               (row 2 (Some ''b'') (Some ''2'') (Some 1) Secondary 6)\<lparr>updatedAt := 10\<rparr>,
               (row 3 (Some ''c'') (Some ''3'') (Some 1) Secondary 7)\<lparr>updatedAt := 9\<rparr>,
               row 4 (Some ''c'') (Some ''4'') (Some 3) Secondary 8],
       nextId = 5, clock = 10,
       trace = [FindMany, FindMany, Update, UpdateMany, FindMany, FindMany, Update,
                UpdateMany, FindMany],
       failAfter = None\<rparr> 11) (Some ''c'') (Some ''2'')) =
     Inr \<lparr>primaryContactId = 1, emails = [''a'', ''b'', ''c''],
          phoneNumbers = [''1'', ''2'', ''3'', ''4''], secondaryContactIds = [2, 3, 4]\<rparr>"
  by (simp add: again_def eval_defs)

subsection \<open>The claims about \<^verbatim>\<open>identifyContact\<close>\<close>

text \<open>
  Claim C1, as amended. Let a request on a well-formed table return a response.
  Then the same request, run again on the world the first one left (at any later
  clock reading \<open>t\<close>, the store serving its calls), returns a response with the
  same \<open>primaryContactId\<close>, the same set of emails and the same set of phone
  numbers; it leaves the table and the id counter as it found them, and its only
  store calls are two reads, so it creates no contact. Well-formed is the invariant
  of the data model: ids are unique and below the counter, a live primary has no
  \<^verbatim>\<open>linkedId\<close>, a live secondary points at a live primary. It holds of the empty
  table and every request that returns a response keeps it
  (\<open>wellFormed_identifyContact\<close>).
\<close>

theorem identifyContact_idempotent:
  assumes wf: "wellFormed w" and run: "identifyContact w em ph = (Inr r, w')"
  shows "\<exists>r2 w2. identifyContact (again w' t) em ph = (Inr r2, w2) \<and>
           primaryContactId r2 = primaryContactId r \<and>
           set (emails r2) = set (emails r) \<and> set (phoneNumbers r2) = set (phoneNumbers r) \<and>
           rows w2 = rows w' \<and> nextId w2 = nextId w' \<and>
           trace w2 = trace w' @ [FindMany, FindMany]"
proof (cases "matchingOf w em ph = []")
  case True
  let ?n = "newRow w em ph None Primary"
  from identifyContact_Inr_nomatch [OF run True]
  have tr: "truthy em \<or> truthy ph" and
    b1: "buildResponse (nextId w) [?n] [] = Inr r" and
    rw: "rows w' = rows w @ [?n]"
    by simp_all
  have idn: "idOf ?n = nextId w" by (simp add: newRow_def)
  have f: "forest (rows w')"
    using wellFormed_identifyContact [OF wf run] by (simp add: wellFormed_def)
  have mn: "matchWhere em ph ?n"
    using tr by (auto simp: matchWhere_def newRow_def)
  have nomatch: "\<not> matchWhere em ph c" if "c \<in> set (rows w)" for c
  proof
    assume "matchWhere em ph c"
    with that have "c \<in> set (matchingOf w em ph)" by (simp add: matchingOf_set)
    with True show False by simp
  qed
  have roots: "rootId c = Some (idOf ?n)" if "c \<in> set (rows w')" "matchWhere em ph c" for c
  proof -
    from that nomatch have "c = ?n" by (auto simp: rw)
    then show ?thesis by (simp add: rootId_def newRow_def)
  qed
  have sm: "set [?n] = set (filter (refreshWhere (idOf ?n)) (rows w'))"
    using no_member_of_fresh [OF wf]
    by (auto simp: rw idn) (simp add: refreshWhere_def newRow_def)
  have old: "\<not> introducesNew em ph [?n]"
    by (simp add: introducesNew_def newRow_def)
  show ?thesis
  proof (rule rerun_core [OF f _ _ _ _ mn roots _ sm old])
    show "?n \<in> set (rows w')" by (simp add: rw)
    show "deletedAt ?n = None" "linkPrecedence ?n = Primary" by (simp_all add: newRow_def)
    show "?n \<in> set (rows w')" by (simp add: rw)
    show "buildResponse (idOf ?n) [?n] [] = Inr r" using b1 by (simp only: idn)
  qed
next
  case False
  from run_shape [OF run False] obtain tp others members where
    ps: "primariesOf w em ph = tp # others" and
    ms: "members = (if others = [] then candidatesOf w em ph
                    else sort_key createdAt (filter (refreshWhere (idOf tp))
                           (map (mergeRow (idOf tp) (idOf ` set others) (clock w)) (rows w))))" and
    fin: "if introducesNew em ph members then
              rows w' = map (mergeRow (idOf tp) (idOf ` set others) (clock w)) (rows w)
                          @ [newRow w em ph (Some (idOf tp)) Secondary] \<and>
              nextId w' = Suc (nextId w) \<and>
              buildResponse (idOf tp) (members @ [newRow w em ph (Some (idOf tp)) Secondary])
                (map idOf (filter (\<lambda>c. linkPrecedence c = Secondary)
                   (members @ [newRow w em ph (Some (idOf tp)) Secondary]))) = Inr r
            else
              rows w' = map (mergeRow (idOf tp) (idOf ` set others) (clock w)) (rows w) \<and>
              nextId w' = nextId w \<and>
              buildResponse (idOf tp) members
                (map idOf (filter (\<lambda>c. linkPrecedence c = Secondary) members)) = Inr r"
    by blast
  let ?m = "mergeRow (idOf tp) (idOf ` set others) (clock w)"
  let ?rm = "map ?m (rows w)"
  let ?s = "newRow w em ph (Some (idOf tp)) Secondary"
  note m = primaries_mergeable [OF wf ps]
  have f: "forest (rows w')"
    using wellFormed_identifyContact [OF wf run] by (simp add: wellFormed_def)
  have tprm: "tp \<in> set ?rm"
    using m mergeRow_tp [OF m, of "clock w"] by (force simp: mergeable_def)
  have tpok: "deletedAt tp = None" "linkPrecedence tp = Primary"
    using m by (simp_all add: mergeable_def)
  obtain c0 where c0: "c0 \<in> set (matchingOf w em ph)" using False by (cases "matchingOf w em ph") auto
  have r0: "rootId (?m c) = Some (idOf tp)" if "c \<in> set (matchingOf w em ph)" for c
    using wf ps that by (rule root_after_merge)
  \<comment> \<open>the members are the cluster of the true primary in the merged table\<close>
  have mem: "members = sort_key createdAt (filter (refreshWhere (idOf tp)) ?rm)"
  proof (cases "others = []")
    case True
    have id: "?rm = rows w" unfolding True by (rule map_idI) (simp add: mergeRow_empty)
    have "\<forall>c \<in> set (matchingOf w em ph). rootId c = Some (idOf tp)"
      using r0 unfolding True by (simp add: mergeRow_empty)
    from candidatesOf_single [OF False this] ms True id show ?thesis by simp
  next
    case False
    with ms show ?thesis by simp
  qed
  have rows': "rows w' = (if introducesNew em ph members then ?rm @ [?s] else ?rm)"
    using fin by (auto split: if_splits)
  have tp': "tp \<in> set (rows w')" using tprm by (simp add: rows')
  have some: "?m c0 \<in> set (rows w')" "matchWhere em ph (?m c0)"
    using c0 by (auto simp: rows' matchingOf_set)
  have sref: "refreshWhere (idOf tp) ?s" by (simp add: refreshWhere_def newRow_def)
  have roots: "rootId c = Some (idOf tp)" if "c \<in> set (rows w')" "matchWhere em ph c" for c
  proof (cases "c \<in> set ?rm")
    case True
    then obtain c1 where c1: "c1 \<in> set (rows w)" "c = ?m c1" by auto
    with that(2) have "c1 \<in> set (matchingOf w em ph)" by (simp add: matchingOf_set)
    from r0 [OF this] c1 show ?thesis by simp
  next
    case False
    with that(1) have "c = ?s" by (auto simp: rows' split: if_splits)
    then show ?thesis by (simp add: rootId_def newRow_def)
  qed
  show ?thesis
  proof (cases "introducesNew em ph members")
    case True
    with fin have b1: "buildResponse (idOf tp) (members @ [?s])
                (map idOf (filter (\<lambda>c. linkPrecedence c = Secondary) (members @ [?s]))) = Inr r"
      by simp
    have sm: "set (members @ [?s]) = set (filter (refreshWhere (idOf tp)) (rows w'))"
      using True sref by (auto simp: rows' mem)
    have old: "\<not> introducesNew em ph (members @ [?s])"
      by (simp add: introducesNew_def newRow_def)
    from rerun_core [OF f tp' tpok some roots b1 sm old] show ?thesis .
  next
    case False
    with fin have b1: "buildResponse (idOf tp) members
                (map idOf (filter (\<lambda>c. linkPrecedence c = Secondary) members)) = Inr r"
      by simp
    have sm: "set members = set (filter (refreshWhere (idOf tp)) (rows w'))"
      using False by (simp add: rows' mem)
    from rerun_core [OF f tp' tpok some roots b1 sm False] show ?thesis .
  qed
qed

theorem identifyContact_idempotent_witness:
  "wellFormed mergeWorld \<and>
   (\<exists>r2 w2.
      identifyContact (again (snd (identifyContact mergeWorld (Some ''a'') (Some ''2''))) 12)
        (Some ''a'') (Some ''2'') = (Inr r2, w2) \<and>
      primaryContactId r2 = 1 \<and>
      set (emails r2) = {''a'', ''b'', ''c''} \<and> set (phoneNumbers r2) = {''1'', ''2''} \<and>
      rows w2 = rows (snd (identifyContact mergeWorld (Some ''a'') (Some ''2''))))"
proof -
  from identifyContact_idempotent [OF wellFormed_mergeWorld merge_eval, of 12]
  obtain r2 w2 where
    "identifyContact (again (snd (identifyContact mergeWorld (Some ''a'') (Some ''2''))) 12)
        (Some ''a'') (Some ''2'') = (Inr r2, w2)"
    "primaryContactId r2 = 1"
    "set (emails r2) = {''a'', ''b'', ''c''}" "set (phoneNumbers r2) = {''1'', ''2''}"
    "rows w2 = rows (snd (identifyContact mergeWorld (Some ''a'') (Some ''2'')))"
    by (auto simp: merge_eval)
  with wellFormed_mergeWorld show ?thesis by blast
qed

text \<open>
  The claim as stated, for every table a successful request leaves, fails on a
  table that the program itself has left. On the well-formed \<open>stallWorld\<close> the
  store rejects the fourth call of a merging request; the table \<open>stalledWorld\<close>
  it leaves has contact 3 demoted and contact 4 still pointing at 3. The next
  request there succeeds, merges 2 into 1, and answers from the refreshed cluster
  of 1, which contact 4 is not in; the same request run again merges nothing,
  answers from the candidate set, which contact 4 is in, and returns one phone
  number more.
\<close>

theorem identifyContact_rerun_counterexample:
  "wellFormed stallWorld \<and>
   identifyContact stallWorld (Some ''a'') (Some ''3'') =
     (Inl StoreFailure, stalledWorld\<lparr>clock := 9, failAfter := Some 0\<rparr>) \<and>
   fst (identifyContact stalledWorld (Some ''c'') (Some ''2'')) =
     Inr \<lparr>primaryContactId = 1, emails = [''a'', ''b'', ''c''],
          phoneNumbers = [''1'', ''2'', ''3''], secondaryContactIds = [2, 3]\<rparr> \<and>
   fst (identifyContact (again (snd (identifyContact stalledWorld (Some ''c'') (Some ''2''))) 11)
          (Some ''c'') (Some ''2'')) =
     Inr \<lparr>primaryContactId = 1, emails = [''a'', ''b'', ''c''],
          phoneNumbers = [''1'', ''2'', ''3'', ''4''], secondaryContactIds = [2, 3, 4]\<rparr>"
  using wellFormed_stallWorld stall_eval stalled_again_eval
  by (simp add: stalled_eval)

text \<open>
  Claim C2, as amended. Let a request return a response on a table with its
  primary key (\<open>keyed\<close>), and let the candidate set hold the primaries
  \<open>tp # others\<close> in the order of the source's sort, \<open>others\<close> not empty. Then
  \<open>tp\<close> is the answer's primary and no other candidate primary is older; under the
  id of \<open>tp\<close> the new table still has a primary; every other candidate primary is,
  under its id, a secondary whose \<^verbatim>\<open>linkedId\<close> is the id of \<open>tp\<close>; every live
  contact whose \<^verbatim>\<open>linkedId\<close> was the id of one of them has, under its id, the id of
  \<open>tp\<close> as \<^verbatim>\<open>linkedId\<close>; and among the rows the third query reads no secondary
  points at a secondary. When moreover the table was a forest before the request,
  the row \<open>tp\<close> is in the new table unchanged and the new table is a forest again:
  no live secondary of it points at a secondary. Both conditions are needed for
  that: the request must return a response, and the table must have been a forest.
  Contacts with a tombstone are outside every query of the source, the re-linking
  included (line 128), as the claim's own last clause has it.
\<close>

theorem identifyContact_merge_forest:
  assumes k: "keyed w" and run: "identifyContact w em ph = (Inr r, w')"
    and ps: "primariesOf w em ph = tp # others" and more: "others \<noteq> []"
  shows "primaryContactId r = idOf tp \<and>
         (\<forall>p \<in> set others. createdAt tp \<le> createdAt p) \<and>
         (\<exists>p' \<in> set (rows w'). idOf p' = idOf tp \<and> linkPrecedence p' = Primary) \<and>
         (\<forall>p \<in> set others. \<exists>p' \<in> set (rows w').
            idOf p' = idOf p \<and> linkPrecedence p' = Secondary \<and> linkedId p' = Some (idOf tp)) \<and>
         (\<forall>c \<in> set (rows w).
            deletedAt c = None \<and> linkedId c \<in> Some ` idOf ` set others \<longrightarrow>
            (\<exists>c' \<in> set (rows w'). idOf c' = idOf c \<and> linkedId c' = Some (idOf tp))) \<and>
         (\<forall>c \<in> set (rows w'). \<forall>d \<in> set (rows w').
            refreshWhere (idOf tp) c \<and> linkPrecedence c = Secondary \<and>
            linkedId c = Some (idOf d) \<longrightarrow> linkPrecedence d = Primary) \<and>
         (forest (rows w) \<longrightarrow>
            tp \<in> set (rows w') \<and> forest (rows w') \<and>
            (\<forall>c \<in> set (rows w'). \<forall>d \<in> set (rows w').
               deletedAt c = None \<and> linkPrecedence c = Secondary \<and>
               linkedId c = Some (idOf d) \<longrightarrow> linkPrecedence d = Primary))"
proof -
  let ?m = "mergeRow (idOf tp) (idOf ` set others) (clock w)"
  let ?s = "newRow w em ph (Some (idOf tp)) Secondary"
  have ne: "matchingOf w em ph \<noteq> []" using ps by (intro primariesOf_matching) simp
  from run_shape [OF run ne] ps
  have pid: "primaryContactId r = idOf tp" and
    rw: "rows w' = map ?m (rows w) @ [?s] \<or> rows w' = map ?m (rows w)"
    by (auto split: if_splits)
  then have sub: "?m c \<in> set (rows w')" if "c \<in> set (rows w)" for c
    using that by auto
  from k have d: "distinct (map idOf (rows w))" and lt: "\<forall>c \<in> set (rows w). idOf c < nextId w"
    by (simp_all add: keyed_def)
  have tp: "tp \<in> set (rows w)" "linkPrecedence tp = Primary" "deletedAt tp = None"
    using primariesOf_rows [of tp w em ph] ps by simp_all
  have others: "p \<in> set (rows w)" if "p \<in> set others" for p
    using primariesOf_rows [of p w em ph] ps that by simp
  have "tp \<notin> set others" using primariesOf_distinct [OF d, of em ph] ps by simp
  then have notin: "idOf tp \<notin> idOf ` set others"
    using distinct_ids [OF d tp(1)] others by auto
  \<comment> \<open>the ids of the new table are unique, too\<close>
  have mm: "map idOf (map ?m (rows w)) = map idOf (rows w)" by (simp add: comp_def)
  have dm: "distinct (map idOf (map ?m (rows w)))" unfolding mm by (rule d)
  have fresh: "idOf ?s \<notin> set (map idOf (map ?m (rows w)))"
    unfolding mm using lt by (auto simp: newRow_def)
  have d': "distinct (map idOf (rows w'))"
    using rw
  proof
    assume a: "rows w' = map ?m (rows w) @ [?s]"
    have "distinct (map idOf (map ?m (rows w)) @ [idOf ?s])" using dm fresh by simp
    then show ?thesis unfolding a by simp
  next
    assume "rows w' = map ?m (rows w)"
    with dm show ?thesis by simp
  qed
  \<comment> \<open>the true primary stays a primary\<close>
  have tpm: "?m tp \<in> set (rows w')" "idOf (?m tp) = idOf tp" "linkPrecedence (?m tp) = Primary"
    using sub [OF tp(1)] tp(2) notin by (simp_all add: mergeRow_def relinkData_def)
  then have 1: "\<exists>p' \<in> set (rows w'). idOf p' = idOf tp \<and> linkPrecedence p' = Primary"
    by blast
  have 2: "\<exists>p' \<in> set (rows w').
            idOf p' = idOf p \<and> linkPrecedence p' = Secondary \<and> linkedId p' = Some (idOf tp)"
    if "p \<in> set others" for p
    using sub [OF others [OF that]] that
    by (intro bexI [of _ "?m p"]) (auto simp: mergeRow_def demoteData_def)
  have 3: "\<exists>c' \<in> set (rows w'). idOf c' = idOf c \<and> linkedId c' = Some (idOf tp)"
    if "c \<in> set (rows w)" "deletedAt c = None" "linkedId c \<in> Some ` idOf ` set others" for c
    using sub [OF that(1)] that(2,3)
    by (intro bexI [of _ "?m c"]) (auto simp: mergeRow_def demoteData_def relinkData_def)
  have 4: "linkPrecedence e = Primary"
    if "c \<in> set (rows w')" "e \<in> set (rows w')" "refreshWhere (idOf tp) c"
      "linkPrecedence c = Secondary" "linkedId c = Some (idOf e)" for c e
  proof -
    have "idOf c \<noteq> idOf tp"
    proof
      assume "idOf c = idOf tp"
      with distinct_ids [OF d' that(1) tpm(1)] tpm(2) have "c = ?m tp" by simp
      with tpm(3) that(4) show False by simp
    qed
    with that(3,5) have "idOf e = idOf tp" by (simp add: refreshWhere_def)
    with distinct_ids [OF d' that(2) tpm(1)] tpm(2) have "e = ?m tp" by simp
    with tpm(3) show ?thesis by simp
  qed
  have 5: "tp \<in> set (rows w') \<and> forest (rows w') \<and>
            (\<forall>c \<in> set (rows w'). \<forall>d \<in> set (rows w').
               deletedAt c = None \<and> linkPrecedence c = Secondary \<and>
               linkedId c = Some (idOf d) \<longrightarrow> linkPrecedence d = Primary)"
    if fr: "forest (rows w)"
  proof -
    from k fr have wf: "wellFormed w" by (simp add: wellFormed_keyed)
    note m = primaries_mergeable [OF wf ps]
    have a: "tp \<in> set (rows w')" using sub [OF tp(1)] mergeRow_tp [OF m, of "clock w"] by simp
    have f: "forest (rows w')"
      using wellFormed_identifyContact [OF wf run] by (simp add: wellFormed_def)
    have "linkPrecedence e = Primary"
      if "c \<in> set (rows w')" "e \<in> set (rows w')" "deletedAt c = None"
        "linkPrecedence c = Secondary" "linkedId c = Some (idOf e)" for c e
      using forest_depth [OF f that(1) that(3) that(4) that(2) that(5)] .
    with a f show ?thesis by blast
  qed
  from pid primariesOf_sorted [OF ps] 1 2 3 4 5 show ?thesis by blast
qed

theorem identifyContact_merge_forest_witness:
  "keyed mergeWorld \<and> forest (rows mergeWorld) \<and>
   primariesOf mergeWorld (Some ''a'') (Some ''2'') =
     [row 1 (Some ''a'') (Some ''1'') None Primary 5,
      row 2 (Some ''b'') (Some ''2'') None Primary 6] \<and>
   rows (snd (identifyContact mergeWorld (Some ''a'') (Some ''2''))) =
     [row 1 (Some ''a'') (Some ''1'') None Primary 5,
      (row 2 (Some ''b'') (Some ''2'') (Some 1) Secondary 6)\<lparr>updatedAt := 9\<rparr>,
      (row 3 (Some ''c'') (Some ''2'') (Some 1) Secondary 7)\<lparr>updatedAt := 9\<rparr>] \<and>
   forest (rows (snd (identifyContact mergeWorld (Some ''a'') (Some ''2''))))"
proof -
  have more: "[row 2 (Some ''b'') (Some ''2'') None Primary 6] \<noteq> []" by simp
  from identifyContact_merge_forest [OF keyed_mergeWorld merge_eval merge_primaries more]
    forest_mergeWorld
  have "forest (rows (snd (identifyContact mergeWorld (Some ''a'') (Some ''2''))))"
    by (simp add: merge_eval)
  with keyed_mergeWorld forest_mergeWorld merge_primaries show ?thesis by (simp add: merge_eval)
qed

text \<open>
  The claim as stated, for every request whose candidate set holds more than one
  primary, fails in two ways. On \<open>crashWorld\<close>, a forest, the store rejects the
  fourth call: the request ends with the store's failure, contact 2 is demoted and
  the live secondary 3 still points at 2, a secondary. On \<open>stalledWorld\<close>, where
  the live secondary 4 points at the secondary 3, the request returns a response
  and merges 2 into 1, and 4 still points at 3.
\<close>

theorem identifyContact_merge_depth_counterexample:
  "keyed crashWorld \<and> forest (rows crashWorld) \<and>
   map idOf (primariesOf crashWorld (Some ''a'') (Some ''2'')) = [1, 2] \<and>
   fst (identifyContact crashWorld (Some ''a'') (Some ''2'')) = Inl StoreFailure \<and>
   links (snd (identifyContact crashWorld (Some ''a'') (Some ''2''))) =
     [(1, Primary, None, None), (2, Secondary, Some 1, None), (3, Secondary, Some 2, None)] \<and>
   keyed stalledWorld \<and>
   map idOf (primariesOf stalledWorld (Some ''c'') (Some ''2'')) = [1, 2] \<and>
   fst (identifyContact stalledWorld (Some ''c'') (Some ''2'')) =
     Inr \<lparr>primaryContactId = 1, emails = [''a'', ''b'', ''c''],
          phoneNumbers = [''1'', ''2'', ''3''], secondaryContactIds = [2, 3]\<rparr> \<and>
   links (snd (identifyContact stalledWorld (Some ''c'') (Some ''2''))) =
     [(1, Primary, None, None), (2, Secondary, Some 1, None), (3, Secondary, Some 1, None),
      (4, Secondary, Some 3, None)]"
  using keyed_crashWorld forest_crashWorld keyed_stalledWorld
  by (simp add: crash_primaries stalled_primaries crash_eval stalled_eval links_def)
     (simp add: row_def)

text \<open>
  Claim C3. On a request that succeeds and for which matches exist, the resolver has
  returned the true primary and the members of its cluster, leaving a table of the
  length it found. The request then adds a row exactly when \<open>introducesNew\<close> holds
  of the members: the supplied email is not among their emails or the supplied
  phone number not among their phone numbers, and both fields are supplied
  (truthy). The row has the email and phone number of the request, the id of the
  true primary as \<^verbatim>\<open>linkedId\<close> and the precedence secondary. Otherwise the table
  is the one the resolver left.
\<close>

theorem identifyContact_secondary_condition:
  assumes "identifyContact w em ph = (Inr r, w')" and "matchingOf w em ph \<noteq> []"
  shows "\<exists>truePrimary members w3.
           resolveCluster (candidatesOf w em ph) (attempt FindMany (attempt FindMany w))
             = (Inr (truePrimary, members), w3) \<and>
           primaryContactId r = idOf truePrimary \<and>
           length (rows w3) = length (rows w) \<and>
           (if introducesNew em ph members
            then rows w' = rows w3 @
                   [\<lparr>idOf = nextId w, email = em, phoneNumber = ph,
                     linkedId = Some (idOf truePrimary), linkPrecedence = Secondary,
                     createdAt = clock w, updatedAt = clock w, deletedAt = None\<rparr>]
            else rows w' = rows w3)"
proof -
  from identifyContact_Inr_match [OF assms] obtain tp members w3 where
    rc: "resolveCluster (candidatesOf w em ph) (attempt FindMany (attempt FindMany w))
           = (Inr (tp, members), w3)" and
    fin: "finishIdentify em ph tp members w3 = (Inr r, w')"
    by blast
  from resolveCluster_any [OF rc] have i: "map idOf (rows w3) = map idOf (rows w)"
    and n: "nextId w3 = nextId w" by simp_all
  from i have l: "length (rows w3) = length (rows w)" by (auto dest: arg_cong [where f = length])
  have c: "clock w3 = clock w" using clock_any_resolveCluster [OF rc] by simp
  have nr: "newRow w3 em ph (Some (idOf tp)) Secondary =
            \<lparr>idOf = nextId w, email = em, phoneNumber = ph,
             linkedId = Some (idOf tp), linkPrecedence = Secondary,
             createdAt = clock w, updatedAt = clock w, deletedAt = None\<rparr>"
    using n c by (simp add: newRow_def)
  from finishIdentify_Inr [OF fin] nr l
  have "primaryContactId r = idOf tp \<and> length (rows w3) = length (rows w) \<and>
        (if introducesNew em ph members
            then rows w' = rows w3 @
                   [\<lparr>idOf = nextId w, email = em, phoneNumber = ph,
                     linkedId = Some (idOf tp), linkPrecedence = Secondary,
                     createdAt = clock w, updatedAt = clock w, deletedAt = None\<rparr>]
            else rows w' = rows w3)"
    by (auto split: if_splits)
  with rc show ?thesis by blast
qed

theorem identifyContact_secondary_condition_witness:
  "introducesNew (Some ''b'') (Some ''1'') [row 1 (Some ''a'') (Some ''1'') None Primary 5] \<and>
   rows (snd (identifyContact oneWorld (Some ''b'') (Some ''1''))) =
     rows oneWorld @
       [\<lparr>idOf = 2, email = Some ''b'', phoneNumber = Some ''1'', linkedId = Some 1,
         linkPrecedence = Secondary, createdAt = 9, updatedAt = 9, deletedAt = None\<rparr>]"
proof -
  have ne: "matchingOf oneWorld (Some ''b'') (Some ''1'') \<noteq> []" by (simp add: one_matching)
  have "introducesNew (Some ''b'') (Some ''1'') [row 1 (Some ''a'') (Some ''1'') None Primary 5]"
    by (simp add: introducesNew_def row_def truthy_def)
  with identifyContact_secondary_condition [OF one_eval ne] show ?thesis
    by (simp add: one_eval) (simp add: oneWorld_def row_def)
qed

text \<open>
  Claim C4, as amended. On a request that succeeds and for which matches exist, the
  true primary is the head of \<open>primariesOf\<close>: no candidate primary is older, and
  among the candidate primaries of its own \<^verbatim>\<open>createdAt\<close> it is the one the table
  lists first (the first that \<open>find\<close> meets). It is the one of the smallest id
  among them when the table lists rows of equal \<^verbatim>\<open>createdAt\<close> in ascending order
  of id (\<open>tiesById\<close>). The choice is a function of the table and the request, so it
  is the same on every run from the same world.
\<close>

theorem identifyContact_true_primary:
  assumes "identifyContact w em ph = (Inr r, w')" and "matchingOf w em ph \<noteq> []"
  shows "\<exists>tp others.
           primariesOf w em ph = tp # others \<and> primaryContactId r = idOf tp \<and>
           (\<forall>p \<in> set others. createdAt tp \<le> createdAt p) \<and>
           find (\<lambda>c. clusterWhere (set (map rootId (matchingOf w em ph))) c \<and>
                      linkPrecedence c = Primary \<and> createdAt c = createdAt tp) (rows w)
             = Some tp \<and>
           (tiesById (rows w) \<longrightarrow>
              (\<forall>p \<in> set others. createdAt p = createdAt tp \<longrightarrow> idOf tp < idOf p))"
proof -
  from identifyContact_Inr_match [OF assms] obtain tp members w3 where
    rc: "resolveCluster (candidatesOf w em ph) (attempt FindMany (attempt FindMany w))
           = (Inr (tp, members), w3)" and
    fin: "finishIdentify em ph tp members w3 = (Inr r, w')"
    by blast
  from resolveCluster_Inr [OF rc] obtain others where
    ps: "primariesOf w em ph = tp # others" by (auto simp: primariesOf_def)
  have pid: "primaryContactId r = idOf tp" using finishIdentify_Inr [OF fin] by simp
  have "sorted (map createdAt (primariesOf w em ph))"
    by (simp add: primariesOf_def)
  then have early: "\<forall>p \<in> set others. createdAt tp \<le> createdAt p"
    by (simp add: ps)
  let ?Q = "clusterWhere (set (map rootId (matchingOf w em ph)))"
  let ?P = "\<lambda>c. ?Q c \<and> linkPrecedence c = Primary \<and> createdAt c = createdAt tp"
  have ties: "filter ?P (rows w) = tp # filter (\<lambda>c. createdAt c = createdAt tp) others"
    using ps unfolding primariesOf_def candidatesOf_def by (rule primaries_ties)
  have first: "find ?P (rows w) = Some tp"
    using ties by (rule find_filter_head)
  have byid: "\<forall>p \<in> set others. createdAt p = createdAt tp \<longrightarrow> idOf tp < idOf p"
    if "tiesById (rows w)"
  proof -
    from that have "sorted_wrt (\<lambda>a b. createdAt a = createdAt b \<longrightarrow> idOf a < idOf b)
                      (filter ?P (rows w))"
      unfolding tiesById_def by (rule sorted_wrt_filter)
    then show ?thesis unfolding ties by auto
  qed
  from ps pid early first byid show ?thesis by blast
qed

theorem identifyContact_true_primary_witness:
  "tiesById (rows tiedWorld) \<and>
   map createdAt (primariesOf tiedWorld (Some ''a'') (Some ''2'')) = [5, 5] \<and>
   map idOf (primariesOf tiedWorld (Some ''a'') (Some ''2'')) = [1, 2] \<and>
   fst (identifyContact tiedWorld (Some ''a'') (Some ''2'')) =
     Inr \<lparr>primaryContactId = 1, emails = [''a'', ''b''], phoneNumbers = [''1'', ''2''],
          secondaryContactIds = [2]\<rparr>"
proof -
  have ne: "matchingOf tiedWorld (Some ''a'') (Some ''2'') \<noteq> []" by (simp add: tied_matching)
  have t: "tiesById (rows tiedWorld)"
    by (simp add: tiesById_def tiedWorld_def row_def)
  from identifyContact_true_primary [OF tied_eval ne] t show ?thesis
    by (simp add: tied_primaries tied_eval) (simp add: row_def)
qed

text \<open>
  The claim as stated fails on a table that lists the row of id 2 before the row of
  id 1, both primary and both created at 5: the request that touches both makes 2
  the primary and demotes 1.
\<close>

theorem identifyContact_tie_break_counterexample:
  "map idOf (primariesOf tieWorld (Some ''a'') (Some ''2'')) = [2, 1] \<and>
   map createdAt (primariesOf tieWorld (Some ''a'') (Some ''2'')) = [5, 5] \<and>
   fst (identifyContact tieWorld (Some ''a'') (Some ''2'')) =
     Inr \<lparr>primaryContactId = 2, emails = [''a'', ''b''], phoneNumbers = [''1'', ''2''],
          secondaryContactIds = [1]\<rparr>"
  by (simp add: tie_primaries tie_eval) (simp add: row_def)

text \<open>
  Claim C6, as amended. The demotion of a stale primary and the re-linking of the
  contacts that point at it are two store calls with no transaction around them.
  When the store rejects the first, the table is untouched; when it rejects the
  second, the table holds the demotion alone; when it serves both, the table holds
  the demotion and the re-linking. The step returns normally in the last case
  only. A table that holds the re-linking without the demotion is never left.
\<close>

theorem demoteOne_outcomes:
  "rows (snd (demoteOne truePrimary oldPrimary w)) =
     (if failAfter w = Some 0 then rows w
      else if failAfter w = Some 1 then
        map (\<lambda>c. if idOf c = idOf oldPrimary
                  then demoteData (idOf truePrimary) (clock w) c else c) (rows w)
      else map (mergeRow (idOf truePrimary) {idOf oldPrimary} (clock w)) (rows w)) \<and>
   (fst (demoteOne truePrimary oldPrimary w) = Inr () \<longleftrightarrow>
      failAfter w \<noteq> Some 0 \<and> failAfter w \<noteq> Some 1)"
proof -
  consider (a) "failAfter w = Some 0" | (b) "failAfter w = Some 1"
    | (c) "failAfter w \<noteq> Some 0" "failAfter w \<noteq> Some 1" by blast
  then show ?thesis
  proof cases
    case a
    then show ?thesis
      by (simp add: demoteOne_def update_def failing_def)
  next
    case b
    then show ?thesis
      by (simp add: demoteOne_def update_def updateMany_def failing_def attempt_def)
  next
    case c
    then have f: "\<not> failing w" "\<not> failing (attempt Update w)"
      by (auto simp: failing_def attempt_def split: option.splits)
    then obtain w' where d: "demoteOne truePrimary oldPrimary w = (Inr (), w')"
      by (auto simp: demoteOne_def update_def updateMany_def failing_def)
    from demoteOne_Inr(1) [OF d] d c show ?thesis by simp
  qed
qed

text \<open>
  The claim as stated fails on a table with primaries 1 and 2 and a secondary 3 of
  2, when the store serves three calls and rejects the fourth: the request ends
  with the store's failure, contact 2 is a secondary of 1, contact 3 still points
  at 2.
\<close>

theorem identifyContact_merge_not_atomic:
  "identifyContact crashWorld (Some ''a'') (Some ''2'') =
    (Inl StoreFailure,
     \<lparr>rows = [row 1 (Some ''a'') (Some ''1'') None Primary 5,
              (row 2 (Some ''b'') (Some ''2'') (Some 1) Secondary 6)\<lparr>updatedAt := 9\<rparr>,
              row 3 (Some ''c'') (Some ''2'') (Some 2) Secondary 7],
      nextId = 4, clock = 9, trace = [FindMany, FindMany, Update, UpdateMany], failAfter = Some 0\<rparr>)"
  by (simp add: crashWorld_def eval_defs)

text \<open>
  Claim C7. When both reads are served, some contact matches, and the candidate set
  (the contacts fetched for the roots of the matches) holds no primary, the request
  ends with an error: the \<^verbatim>\<open>TypeError\<close> of reading \<^verbatim>\<open>truePrimary.id\<close> of an
  undefined \<^verbatim>\<open>truePrimary\<close>, which is what the source has for the inconsistent
  state. The request returns no response, and the world it leaves has the table and
  the id counter of the world it found: the two reads are the only store calls, so
  nothing was repaired.
\<close>

theorem identifyContact_no_primary:
  assumes "\<not> failing w" and "\<not> failing (attempt FindMany w)"
    and "matchingOf w em ph \<noteq> []"
    and "None \<notin> set (map rootId (matchingOf w em ph))"
    and "\<forall>c \<in> set (candidatesOf w em ph). linkPrecedence c \<noteq> Primary"
  shows "identifyContact w em ph = (Inl TypeError, attempt FindMany (attempt FindMany w)) \<and>
         rows (attempt FindMany (attempt FindMany w)) = rows w \<and>
         nextId (attempt FindMany (attempt FindMany w)) = nextId w \<and>
         trace (attempt FindMany (attempt FindMany w)) = trace w @ [FindMany, FindMany]"
proof -
  have "filter (\<lambda>c. linkPrecedence c = Primary) (candidatesOf w em ph) = []"
    using assms(5) by (simp add: filter_empty_conv)
  then have "resolveCluster (candidatesOf w em ph) (attempt FindMany (attempt FindMany w))
               = (Inl TypeError, attempt FindMany (attempt FindMany w))"
    by (simp add: resolveCluster_def)
  with assms matchingOf_truthy [OF assms(3)] show ?thesis
    by (auto simp: identifyContact_eq)
qed

theorem identifyContact_no_primary_witness:
  "identifyContact orphanWorld (Some ''a'') None
     = (Inl TypeError, orphanWorld\<lparr>trace := [FindMany, FindMany]\<rparr>)"
proof -
  have 1: "\<not> failing orphanWorld" "\<not> failing (attempt FindMany orphanWorld)"
    by (simp_all add: failing_def attempt_def orphanWorld_def)
  have m: "matchingOf orphanWorld (Some ''a'') None = [row 2 (Some ''a'') (Some ''1'') (Some 1) Secondary 5]"
    by (simp add: matchingOf_def orphanWorld_def matchWhere_def row_def truthy_def)
  have c: "candidatesOf orphanWorld (Some ''a'') None = [row 2 (Some ''a'') (Some ''1'') (Some 1) Secondary 5]"
    by (simp add: candidatesOf_def m) (simp add: orphanWorld_def clusterWhere_def rootId_def row_def)
  have 3: "matchingOf orphanWorld (Some ''a'') None \<noteq> []" by (simp add: m)
  have 4: "None \<notin> set (map rootId (matchingOf orphanWorld (Some ''a'') None))"
    by (simp add: m rootId_def row_def)
  have 5: "\<forall>c \<in> set (candidatesOf orphanWorld (Some ''a'') None). linkPrecedence c \<noteq> Primary"
    by (simp add: c row_def)
  from identifyContact_no_primary [OF 1 3 4 5] show ?thesis
    by (simp add: orphanWorld_def attempt_def)
qed

text \<open>
  Claim C8. A request in which neither field is supplied (each is null, undefined
  or the empty string) ends with the error of line 46 and leaves the world as it
  was: the table, the id counter and the trace of store calls are the same, so no
  read, create or update was attempted.
\<close>

theorem identifyContact_invalid_request:
  "\<not> truthy em \<Longrightarrow> \<not> truthy ph \<Longrightarrow> identifyContact w em ph = (Inl InvalidRequest, w)"
  by (simp add: identifyContact_def)

theorem identifyContact_invalid_request_witness:
  "\<not> truthy (Some '''') \<and> \<not> truthy None \<and>
   identifyContact emptyWorld (Some '''') None = (Inl InvalidRequest, emptyWorld)"
  using identifyContact_invalid_request [of "Some ''''" None emptyWorld]
  by (simp add: truthy_def)

text \<open>
  Claim C9. Whatever a request ends with, its trace holds at most one \<open>Create\<close>;
  the rows it found are all still there, under their ids and in their places, and
  the table has at most one row more. When nothing matched, the row is the fresh
  primary with a null \<^verbatim>\<open>linkedId\<close> (and it is there unless the request ended with
  an error); when something matched, the row, if any, is a secondary linked to some
  contact. The test \<open>matchingOf w em ph = []\<close> decides which of the two it can be.
\<close>

theorem identifyContact_at_most_one_create:
  assumes "identifyContact w em ph = (res, w')"
  shows "(\<exists>ks. trace w' = trace w @ ks \<and> length (filter (\<lambda>k. k = Create) ks) \<le> 1) \<and>
         map idOf (take (length (rows w)) (rows w')) = map idOf (rows w) \<and>
         (if matchingOf w em ph = [] then
            (drop (length (rows w)) (rows w') = [newRow w em ph None Primary] \<or>
             drop (length (rows w)) (rows w') = [] \<and> (\<exists>e. res = Inl e))
          else
            (drop (length (rows w)) (rows w') = [] \<or>
             (\<exists>tp. drop (length (rows w)) (rows w') = [newRow w em ph (Some tp) Secondary])))"
proof -
  let ?w1 = "attempt FindMany w"
  let ?w2 = "attempt FindMany ?w1"
  note eq = assms [unfolded identifyContact_eq]
  show ?thesis
  proof (cases "\<not> truthy em \<and> \<not> truthy ph")
    case True
    with eq have "w' = w" "\<exists>e. res = Inl e" by auto
    then show ?thesis by simp
  next
    case valid: False
    show ?thesis
    proof (cases "failing w")
      case True
      with eq valid have "w' = ?w1" "\<exists>e. res = Inl e" by auto
      then show ?thesis by simp
    next
      case served: False
      show ?thesis
      proof (cases "matchingOf w em ph = []")
        case True
        show ?thesis
        proof (cases "failing ?w1")
          case True
          with eq valid served \<open>matchingOf w em ph = []\<close>
          have "w' = attempt Create ?w1" "\<exists>e. res = Inl e" by auto
          with \<open>matchingOf w em ph = []\<close> show ?thesis by simp
        next
          case False
          with eq valid served \<open>matchingOf w em ph = []\<close>
          have "w' = (attempt Create ?w1)
                 \<lparr>rows := rows w @ [newRow w em ph None Primary], nextId := Suc (nextId w)\<rparr>"
            by auto
          with \<open>matchingOf w em ph = []\<close> show ?thesis by simp
        qed
      next
        case matched: False
        show ?thesis
        proof (cases "None \<in> set (map rootId (matchingOf w em ph)) \<or> failing ?w1")
          case True
          with eq valid served matched have "w' = ?w2" by (auto split: if_splits)
          with matched show ?thesis by simp
        next
          case False
          obtain r3 w3 where rc: "resolveCluster (candidatesOf w em ph) ?w2 = (r3, w3)"
            by (cases "resolveCluster (candidatesOf w em ph) ?w2")
          from resolveCluster_any [OF rc] obtain ks where
            i: "map idOf (rows w3) = map idOf (rows w)" and n: "nextId w3 = nextId w" and
            t: "trace w3 = trace w @ FindMany # FindMany # ks" and k: "Create \<notin> set ks"
            by auto
          have c: "clock w3 = clock w" using clock_any_resolveCluster [OF rc] by simp
          have f0: "filter (\<lambda>k. k = Create) ks = []" using k by (auto simp: filter_empty_conv)
          show ?thesis
          proof (cases r3)
            case (Inl e)
            with eq valid served matched False rc have "w' = w3" by auto
            with created_none [OF i] t f0 matched show ?thesis by simp
          next
            case (Inr pr)
            obtain tp members where pr: "pr = (tp, members)" by (cases pr)
            with eq valid served matched False rc Inr
            have fin: "finishIdentify em ph tp members w3 = (res, w')" by auto
            have nr: "newRow w3 em ph (Some (idOf tp)) Secondary
                        = newRow w em ph (Some (idOf tp)) Secondary"
              using n c by (simp add: newRow_def)
            from finishIdentify_any [OF fin]
            consider "w' = w3" | "w' = attempt Create w3"
              | "w' = (attempt Create w3)
                    \<lparr>rows := rows w3 @ [newRow w3 em ph (Some (idOf tp)) Secondary],
                     nextId := Suc (nextId w3)\<rparr>"
              by auto
            then show ?thesis
            proof cases
              case 1
              with created_none [OF i] t f0 matched show ?thesis by simp
            next
              case 2
              then have "map idOf (rows w') = map idOf (rows w)"
                and tr: "trace w' = trace w @ (FindMany # FindMany # ks @ [Create])"
                using i t by simp_all
              from created_none [OF this(1)] tr f0 matched show ?thesis by simp
            next
              case 3
              then have r: "rows w' = rows w3 @ [newRow w em ph (Some (idOf tp)) Secondary]"
                and tr: "trace w' = trace w @ (FindMany # FindMany # ks @ [Create])"
                using nr t by simp_all
              from created_one [OF i r] tr f0 matched show ?thesis by auto
            qed
          qed
        qed
      qed
    qed
  qed
qed

theorem identifyContact_at_most_one_create_witness:
  "matchingOf oneWorld (Some ''b'') (Some ''1'') \<noteq> [] \<and>
   drop (length (rows oneWorld)) (rows (snd (identifyContact oneWorld (Some ''b'') (Some ''1''))))
     = [newRow oneWorld (Some ''b'') (Some ''1'') (Some 1) Secondary] \<and>
   trace (snd (identifyContact oneWorld (Some ''b'') (Some ''1''))) = [FindMany, FindMany, Create]"
  using identifyContact_at_most_one_create [OF one_eval]
  by (simp add: one_matching one_eval) (simp add: oneWorld_def newRow_def row_def)

text \<open>
  Claim C10 at the input where the code departs from it. On an empty table, the
  request with the empty string as email stores the empty string in the \<^verbatim>\<open>email\<close>
  of the new primary (\<^verbatim>\<open>email ?? null\<close> at line 65 keeps it), whereas the request
  without an email stores null.
\<close>

theorem identifyContact_empty_string_stored:
  "rows (snd (identifyContact emptyWorld (Some '''') (Some ''1'')))
     = [row 1 (Some '''') (Some ''1'') None Primary 0] \<and>
   rows (snd (identifyContact emptyWorld None (Some ''1'')))
     = [row 1 None (Some ''1'') None Primary 0]"
  by (simp add: emptyWorld_def eval_defs)

text \<open>
  In every other respect a falsy field is like any other falsy field: the result
  and the store calls are the same.
\<close>

lemma matchingOf_falsy:
  "\<not> truthy em \<Longrightarrow> \<not> truthy em' \<Longrightarrow> matchingOf w em ph = matchingOf w em' ph"
proof -
  assume "\<not> truthy em" "\<not> truthy em'"
  then have "matchWhere em ph = matchWhere em' ph"
    by (auto simp: matchWhere_def fun_eq_iff)
  then show ?thesis by (simp add: matchingOf_def)
qed

lemma identifyContact_falsy_response:
  assumes "\<not> truthy em" and "\<not> truthy em'"
  shows "fst (identifyContact w em ph) = fst (identifyContact w em' ph) \<and>
         trace (snd (identifyContact w em ph)) = trace (snd (identifyContact w em' ph))"
proof -
  have m: "matchingOf w em ph = matchingOf w em' ph"
    using assms by (rule matchingOf_falsy)
  have c: "candidatesOf w em ph = candidatesOf w em' ph"
    by (simp add: candidatesOf_def m)
  have i: "introducesNew em ph ms = introducesNew em' ph ms" for ms
    using assms by (simp add: introducesNew_def)
  have f: "finishIdentify em ph tp ms w3 = finishIdentify em' ph tp ms w3" for tp ms w3
    using assms by (simp add: finishIdentify_eq i) (simp add: introducesNew_def)
  have b: "buildResponse (nextId w) [newRow w em ph None Primary] []
             = buildResponse (nextId w) [newRow w em' ph None Primary] []"
    using assms by (auto simp: buildResponse_def newRow_def pushNew_def truthy_def split: option.splits)
  show ?thesis
    using assms by (simp add: identifyContact_eq m c f b split: prod.splits sum.splits)
qed

end
